theory Spec2Isabelle
  imports Complex_Main "HOL-Library.Multiset" "HOL-Library.List_Lexorder" "HOL-Library.Char_ord"
    "HOL-Library.AList"
begin

section \<open>The buffered reader of StyleSheetParser\<close>

text \<open>
  Diagnostics written through \<open>Log::Message\<close>, one constructor per call site of
  StyleSheetParser.cpp. The source file name is left out of the messages; the line
  number is kept.
\<close>

datatype warning =
    InvalidKeyframesIdentifier string nat
  | InvalidKeyframesRules string nat
  | InvalidCharacterGlobal char nat
  | InvalidCharacterKeyframesIdentifier char nat
  | InvalidCharacterKeyframes char nat
  | NameWithNoValue string nat
  | EndOfRuleInName string nat
  | SyntaxErrorDeclaration string string nat
  | EndOfRuleInValue string string nat
  | InvalidPropertyDeclaration string string nat

text \<open>
  Modelled from the spec: the stream (class \<open>Stream\<close> is declared outside the files at
  hand) is an abstract, ordered, read-once source of bytes with an end-of-stream signal;
  \<open>stream\<close> holds the bytes not yet delivered, \<open>IsEOS\<close> is its emptiness, and \<open>Read\<close>
  delivers at most the requested number of bytes. The other fields are the members of
  the parser object that the reading functions touch, and the messages logged so far.
\<close>

record parser =
  parse_buffer :: string
  parse_buffer_pos :: nat
  line_number :: nat
  stream :: string
  messages :: "warning list"

definition Log_Message :: "warning \<Rightarrow> parser \<Rightarrow> parser" where
  "Log_Message w ps = ps\<lparr>messages := messages ps @ [w]\<rparr>"

definition FillBuffer :: "parser \<Rightarrow> bool \<times> parser" where
  "FillBuffer ps =
     (if stream ps = [] then (False, ps)
      else (0 < length (take 4092 (stream ps)),
            ps\<lparr>parse_buffer := take 4092 (stream ps),
               parse_buffer_pos := 0,
               stream := drop 4092 (stream ps)\<rparr>))"

text \<open>\<open>parse_buffer_pos++\<close>\<close>

definition advance :: "parser \<Rightarrow> parser" where
  "advance ps = ps\<lparr>parse_buffer_pos := parse_buffer_pos ps + 1\<rparr>"

text \<open>
  The character under the cursor, \<open>parse_buffer[parse_buffer_pos]\<close>. The reader looks at
  it only where the cursor is inside the buffer (\<open>advance_refill_unread\<close> below).
\<close>

definition cur :: "parser \<Rightarrow> char" where
  "cur ps = parse_buffer ps ! parse_buffer_pos ps"

text \<open>
  The look-ahead both comment checks of \<open>ReadCharacter\<close> make: step over the current
  character and refill when the buffer is used up. The flag is False exactly when
  that refill fails.
\<close>

definition advance_refill :: "parser \<Rightarrow> bool \<times> parser" where
  "advance_refill ps =
     (let ps1 = advance ps in
      if parse_buffer_pos ps1 \<ge> length (parse_buffer ps1) then FillBuffer ps1
      else (True, ps1))"

text \<open>
  What remains to be read: twice the undelivered bytes plus the unread part of the
  buffer. Every step of the reader lowers it.
\<close>

definition unread :: "parser \<Rightarrow> nat" where
  "unread ps = 2 * length (stream ps) + (length (parse_buffer ps) - parse_buffer_pos ps)"

lemma FillBuffer_unread:
  "FillBuffer ps = (True, ps') \<Longrightarrow> unread ps' < unread ps"
  by (cases "stream ps") (auto simp: FillBuffer_def unread_def split: if_splits)

lemma FillBuffer_True_nonempty:
  "FillBuffer ps = (True, ps') \<Longrightarrow> parse_buffer_pos ps' = 0 \<and> parse_buffer ps' \<noteq> []"
  by (cases "stream ps") (auto simp: FillBuffer_def split: if_splits)

lemma FillBuffer_False:
  "FillBuffer ps = (False, ps') \<longleftrightarrow> stream ps = [] \<and> ps' = ps"
  by (cases "stream ps") (auto simp: FillBuffer_def)

lemma advance_refill_unread:
  "advance_refill ps = (True, ps') \<Longrightarrow> parse_buffer_pos ps < length (parse_buffer ps) \<Longrightarrow>
     unread ps' < unread ps \<and> parse_buffer_pos ps' < length (parse_buffer ps')"
  by (cases "stream ps")
     (auto simp: advance_refill_def advance_def Let_def FillBuffer_def unread_def split: if_splits)

lemma advance_refill_False:
  "advance_refill ps = (False, ps') \<Longrightarrow>
     stream ps = [] \<and> ps' = advance ps \<and> length (parse_buffer ps) \<le> parse_buffer_pos ps + 1"
  by (auto simp: advance_refill_def Let_def FillBuffer_False advance_def split: if_splits)

lemma unread_advance_le: "unread (advance ps) \<le> unread ps"
  by (simp add: unread_def advance_def)

lemma unread_advance:
  "parse_buffer_pos ps < length (parse_buffer ps) \<Longrightarrow>
     unread (advance (ps\<lparr>line_number := n\<rparr>)) < unread ps"
  "parse_buffer_pos ps < length (parse_buffer ps) \<Longrightarrow> unread (advance ps) < unread ps"
  by (simp_all add: unread_def advance_def)

lemma advance_refill_advance:
  "advance_refill ps = (True, ps') \<Longrightarrow> parse_buffer_pos ps < length (parse_buffer ps) \<Longrightarrow>
     unread (advance ps') < unread ps"
  using advance_refill_unread[of ps ps'] unread_advance_le[of ps'] by simp

function ReadCharacter_loop :: "bool \<Rightarrow> parser \<Rightarrow> char option \<times> parser" where
  "ReadCharacter_loop comment ps =
     (if parse_buffer_pos ps < length (parse_buffer ps) then
        (if cur ps = CHR 0x0A then
           ReadCharacter_loop comment (advance (ps\<lparr>line_number := line_number ps + 1\<rparr>))
         else if comment then
           (if cur ps = CHR ''*'' then
              (case advance_refill ps of (ok, ps1) \<Rightarrow>
                 if \<not> ok then (None, ps1)
                 else ReadCharacter_loop (cur ps1 \<noteq> CHR ''/'') (advance ps1))
            else ReadCharacter_loop comment (advance ps))
         else
           (if cur ps = CHR ''/'' then
              (case advance_refill ps of (ok, ps1) \<Rightarrow>
                 if \<not> ok then (Some (CHR ''/''), ps1\<lparr>parse_buffer := ''/''\<rparr>)
                 else if cur ps1 = CHR ''*'' then ReadCharacter_loop True (advance ps1)
                 else (Some (CHR ''/''),
                       if parse_buffer_pos ps1 = 0
                       then ps1\<lparr>parse_buffer := CHR ''/'' # parse_buffer ps1\<rparr>
                       else ps1\<lparr>parse_buffer_pos := parse_buffer_pos ps1 - 1\<rparr>))
            else (Some (cur ps), ps)))
      else
        (case FillBuffer ps of (ok, ps1) \<Rightarrow>
           if ok then ReadCharacter_loop comment ps1 else (None, ps1)))"
  by pat_completeness auto
termination
  by (relation "measure (\<lambda>(comment, ps). unread ps)")
     (auto dest: advance_refill_advance[OF sym] FillBuffer_unread[OF sym] simp: unread_advance)

declare ReadCharacter_loop.simps [simp del]

definition ReadCharacter :: "parser \<Rightarrow> char option \<times> parser" where
  "ReadCharacter ps = ReadCharacter_loop False ps"

lemma unread_Log_Message [simp]: "unread (Log_Message w ps) = unread ps"
  by (simp add: unread_def Log_Message_def)

lemma ReadCharacter_loop_unread:
  "ReadCharacter_loop comment ps = (r, ps') \<Longrightarrow>
     unread ps' \<le> unread ps \<and> (r \<noteq> None \<longrightarrow> unread (advance ps') < unread ps)"
proof (induction comment ps rule: ReadCharacter_loop.induct)
  case (1 comment ps)
  note prem = "1.prems"[unfolded ReadCharacter_loop.simps[of comment ps]]
  show ?case
  proof (cases "parse_buffer_pos ps < length (parse_buffer ps)")
    case False
    obtain ok ps1 where fb: "FillBuffer ps = (ok, ps1)" by (cases "FillBuffer ps")
    show ?thesis
    proof (cases ok)
      case True
      with fb False prem have "ReadCharacter_loop comment ps1 = (r, ps')"
        by simp
      from "1.IH"(5)[OF False fb[symmetric] True this] FillBuffer_unread[of ps ps1] fb True
      show ?thesis by auto
    next
      case F: False
      with fb False prem have "r = None" "ps' = ps1"
        by simp_all
      moreover from fb F have "ps1 = ps" by (simp add: FillBuffer_False)
      ultimately show ?thesis by simp
    qed
  next
    case inb: True
    show ?thesis
    proof (cases "cur ps = CHR 0x0A")
      case True
      with inb prem
      have "ReadCharacter_loop comment (advance (ps\<lparr>line_number := line_number ps + 1\<rparr>)) = (r, ps')"
        by simp
      from "1.IH"(1)[OF inb True this] unread_advance(1)[OF inb] show ?thesis
        by (meson le_trans less_imp_le_nat less_le_trans order.strict_trans2)
    next
      case nonl: False
      obtain ok ps1 where ar: "advance_refill ps = (ok, ps1)" by (cases "advance_refill ps")
      show ?thesis
      proof (cases comment)
        case incomment: True
        show ?thesis
        proof (cases "cur ps = CHR ''*''")
          case star: True
          show ?thesis
          proof (cases ok)
            case True
            with inb nonl incomment star ar prem
            have "ReadCharacter_loop (cur ps1 \<noteq> CHR ''/'') (advance ps1) = (r, ps')"
              by simp
            from "1.IH"(2)[OF inb nonl incomment star ar[symmetric] _ this] True
              advance_refill_advance[of ps ps1] ar inb
            show ?thesis by auto
          next
            case False
            with inb nonl incomment star ar prem have "r = None" "ps' = ps1"
              by simp_all
            moreover from False ar have "unread ps1 \<le> unread ps"
              using advance_refill_False[of ps ps1] unread_advance_le[of ps] by simp
            ultimately show ?thesis by simp
          qed
        next
          case False
          with inb nonl incomment prem
          have "ReadCharacter_loop comment (advance ps) = (r, ps')"
            by simp
          from "1.IH"(3)[OF inb nonl incomment False this] unread_advance(2)[OF inb]
          show ?thesis by auto
        qed
      next
        case nocomment: False
        show ?thesis
        proof (cases "cur ps = CHR ''/''")
          case False
          with inb nonl nocomment prem have "r = Some (cur ps)" "ps' = ps"
            by auto
          with unread_advance(2)[OF inb] show ?thesis by simp
        next
          case slash: True
          show ?thesis
          proof (cases ok)
            case False
            with inb nonl nocomment slash ar prem
            have r: "ps' = ps1\<lparr>parse_buffer := ''/''\<rparr>"
              by simp_all
            from False ar inb have "stream ps1 = []" "parse_buffer_pos ps1 = parse_buffer_pos ps + 1"
              using advance_refill_False[of ps ps1] by (simp_all add: advance_def)
            with r inb show ?thesis by (simp add: unread_def advance_def)
          next
            case okT: True
            show ?thesis
            proof (cases "cur ps1 = CHR ''*''")
              case True
              with inb nonl nocomment slash ar okT prem
              have "ReadCharacter_loop True (advance ps1) = (r, ps')"
                by simp
              from "1.IH"(4)[OF inb nonl nocomment slash ar[symmetric] _ True this] okT
                advance_refill_advance[of ps ps1] ar inb
              show ?thesis by auto
            next
              case False
              with inb nonl nocomment slash ar okT prem
              have r: "ps' = (if parse_buffer_pos ps1 = 0
                         then ps1\<lparr>parse_buffer := CHR ''/'' # parse_buffer ps1\<rparr>
                         else ps1\<lparr>parse_buffer_pos := parse_buffer_pos ps1 - 1\<rparr>)"
                by simp_all
              from ar okT inb have
                "(ps1 = advance ps \<and> parse_buffer_pos ps + 1 < length (parse_buffer ps)) \<or>
                 (parse_buffer_pos ps + 1 = length (parse_buffer ps) \<and> stream ps \<noteq> [] \<and>
                  ps1 = ps\<lparr>parse_buffer := take 4092 (stream ps), parse_buffer_pos := 0,
                          stream := drop 4092 (stream ps)\<rparr>)"
                by (auto simp: advance_refill_def Let_def advance_def FillBuffer_def split: if_splits)
              then show ?thesis
              proof
                assume a: "ps1 = advance ps \<and> parse_buffer_pos ps + 1 < length (parse_buffer ps)"
                with r show ?thesis by (auto simp: unread_def advance_def)
              next
                assume a: "parse_buffer_pos ps + 1 = length (parse_buffer ps) \<and> stream ps \<noteq> [] \<and>
                  ps1 = ps\<lparr>parse_buffer := take 4092 (stream ps), parse_buffer_pos := 0,
                          stream := drop 4092 (stream ps)\<rparr>"
                then have "stream ps \<noteq> []" by simp
                then have "0 < length (take 4092 (stream ps))" by (cases "stream ps") simp_all
                with a r show ?thesis by (auto simp: unread_def advance_def)
              qed
            qed
          qed
        qed
      qed
    qed
  qed
qed

lemma ReadCharacter_unread:
  "ReadCharacter ps = (Some c, ps') \<Longrightarrow> unread (advance ps') < unread ps"
  using ReadCharacter_loop_unread[of False ps "Some c" ps'] by (simp add: ReadCharacter_def)

lemma ReadCharacter_unread_le:
  "ReadCharacter ps = (r, ps') \<Longrightarrow> unread ps' \<le> unread ps"
  using ReadCharacter_loop_unread[of False ps r ps'] by (simp add: ReadCharacter_def)

section \<open>Property dictionaries and the collaborators of the parser\<close>

text \<open>
  A parsed property value is opaque to the parser beyond identity; it is carried as text.
\<close>

type_synonym Property = string

text \<open>
  Modelled from the spec: PropertyDictionary (declared outside the files at hand) is a
  mapping from property name to value that supports import from another dictionary,
  overwriting existing keys. The entries are kept as an association list, in the order
  \<open>GetProperties\<close> enumerates them.
\<close>

type_synonym PropertyDictionary = "(string \<times> Property) list"

definition GetNumProperties :: "PropertyDictionary \<Rightarrow> nat" where
  "GetNumProperties d = length d"

definition Import :: "PropertyDictionary \<Rightarrow> PropertyDictionary \<Rightarrow> PropertyDictionary" where
  "Import d other = fold (\<lambda>(k, v) acc. AList.update k v acc) other d"

record KeyframeBlock =
  normalized_time :: real
  properties :: PropertyDictionary

record Keyframes =
  property_names :: "string list"
  blocks :: "KeyframeBlock list"

type_synonym KeyframesMap = "string \<rightharpoonup> Keyframes"

text \<open>
  The functions the parser calls that live outside StyleSheetParser.cpp and outside this
  repository's files at hand; each is a parameter of the model.
  \<^item> \<open>ParsePropertyDeclaration\<close>: StyleSheetSpecification::ParsePropertyDeclaration, given
    the dictionary, the name, the value text and the rule's line; returns the success
    flag and the dictionary it leaves behind.
  \<^item> \<open>ExpandString\<close>: StringUtilities::ExpandString with its delimiter.
  \<^item> \<open>GetSelector\<close>: whether StyleSheetFactory::GetSelector finds a structural selector
    of that name (a non-null result).
  \<^item> \<open>sscanf_percent\<close>: the C library's \<open>sscanf(rule, "%f%%%n", &value, &count)\<close>, as the
    triple of its return value and the contents of \<open>value\<close> and \<open>count\<close> after the call
    (both start at zero).
  \<^item> \<open>std_sort\<close>: \<open>std::sort\<close> on a sequence's blocks with the comparison on
    \<open>normalized_time\<close>.
\<close>

record collaborators =
  ParsePropertyDeclaration ::
    "PropertyDictionary \<Rightarrow> string \<Rightarrow> string \<Rightarrow> nat \<Rightarrow> bool \<times> PropertyDictionary"
  ExpandString :: "string \<Rightarrow> char \<Rightarrow> string list"
  GetSelector :: "string \<Rightarrow> bool"
  sscanf_percent :: "string \<Rightarrow> int \<times> real \<times> int"
  std_sort :: "KeyframeBlock list \<Rightarrow> KeyframeBlock list"

text \<open>
  Modelled from the spec: StringUtilities::StripWhitespace trims whitespace from both
  ends of a string (space, tab, line feed and carriage return).
\<close>

definition IsWhitespace :: "char \<Rightarrow> bool" where
  "IsWhitespace c \<longleftrightarrow> c = CHR '' '' \<or> c = CHR 0x09 \<or> c = CHR 0x0A \<or> c = CHR 0x0D"

definition StripWhitespace :: "string \<Rightarrow> string" where
  "StripWhitespace s = rev (dropWhile IsWhitespace (rev (dropWhile IsWhitespace s)))"

section \<open>FindToken and ReadProperties\<close>

text \<open>
  \<open>strchr(tokens, character) != NULL\<close>: the terminating zero of \<open>tokens\<close> is
  found as well.
\<close>

definition strchr :: "string \<Rightarrow> char \<Rightarrow> bool" where
  "strchr tokens character \<longleftrightarrow> character \<in> set tokens \<or> character = CHR 0x00"

function FindToken_loop :: "string \<Rightarrow> string \<Rightarrow> bool \<Rightarrow> parser \<Rightarrow> char \<times> string \<times> parser" where
  "FindToken_loop buffer tokens remove_token ps =
     (case ReadCharacter ps of
        (None, ps1) \<Rightarrow> (CHR 0x00, buffer, ps1)
      | (Some character, ps1) \<Rightarrow>
          if strchr tokens character
          then (character, buffer, if remove_token then advance ps1 else ps1)
          else FindToken_loop (buffer @ [character]) tokens remove_token (advance ps1))"
  by pat_completeness auto
termination
  by (relation "measure (\<lambda>(buffer, tokens, remove_token, ps). unread ps)")
     (auto dest: ReadCharacter_unread[OF sym])

declare FindToken_loop.simps [simp del]

definition FindToken :: "string \<Rightarrow> bool \<Rightarrow> parser \<Rightarrow> char \<times> string \<times> parser" where
  "FindToken tokens remove_token ps = FindToken_loop [] tokens remove_token ps"

datatype ParseState = NAME | VALUE | QUOTE

function ReadProperties_loop ::
  "collaborators \<Rightarrow> nat \<Rightarrow> ParseState \<Rightarrow> string \<Rightarrow> string \<Rightarrow> char \<Rightarrow> PropertyDictionary \<Rightarrow> parser
     \<Rightarrow> bool \<times> PropertyDictionary \<times> parser" where
  "ReadProperties_loop E rule_line_number state name val previous_character props ps =
     (case ReadCharacter ps of
        (None, ps1) \<Rightarrow>
          (True, props,
           if name \<noteq> [] \<or> val \<noteq> []
           then Log_Message (InvalidPropertyDeclaration name val (line_number ps1)) ps1
           else ps1)
      | (Some character, ps0) \<Rightarrow>
          (let ps1 = advance ps0 in
           case state of
             NAME \<Rightarrow>
               if character = CHR '';'' then
                 (if StripWhitespace name \<noteq> []
                  then ReadProperties_loop E rule_line_number NAME [] val character props
                         (Log_Message (NameWithNoValue (StripWhitespace name) (line_number ps1)) ps1)
                  else ReadProperties_loop E rule_line_number NAME (StripWhitespace name) val
                         character props ps1)
               else if character = CHR ''}'' then
                 (True, props,
                  if StripWhitespace (StripWhitespace name) \<noteq> []
                  then Log_Message (EndOfRuleInName (StripWhitespace name) (line_number ps1)) ps1
                  else ps1)
               else if character = CHR '':'' then
                 ReadProperties_loop E rule_line_number VALUE (StripWhitespace name) val
                   character props ps1
               else
                 ReadProperties_loop E rule_line_number NAME (name @ [character]) val
                   character props ps1
           | VALUE \<Rightarrow>
               if character = CHR '';'' then
                 (case ParsePropertyDeclaration E props name (StripWhitespace val) rule_line_number of
                    (ok, props1) \<Rightarrow>
                      ReadProperties_loop E rule_line_number NAME [] [] character props1
                        (if \<not> ok
                         then Log_Message
                                (SyntaxErrorDeclaration name (StripWhitespace val) (line_number ps1)) ps1
                         else ps1))
               else if character = CHR ''}'' then
                 (True, props, Log_Message (EndOfRuleInValue name val (line_number ps1)) ps1)
               else
                 ReadProperties_loop E rule_line_number
                   (if character = CHR 0x22 then QUOTE else VALUE) name (val @ [character])
                   character props ps1
           | QUOTE \<Rightarrow>
               ReadProperties_loop E rule_line_number
                 (if character = CHR 0x22 \<and> previous_character \<noteq> CHR ''/'' then VALUE else QUOTE)
                 name (val @ [character]) character props ps1))"
  by pat_completeness auto
termination
  by (relation "measure (\<lambda>(E, rl, state, name, val, prev, props, ps). unread ps)")
     (auto dest: ReadCharacter_unread[OF sym])

declare ReadProperties_loop.simps [simp del]

text \<open>
  \<open>ReadProperties\<close>: the rule's line number is the line counter at entry, the scanner
  starts in \<open>NAME\<close> with empty name and value and previous character zero.
\<close>

definition ReadProperties :: "collaborators \<Rightarrow> PropertyDictionary \<Rightarrow> parser \<Rightarrow> bool \<times> PropertyDictionary \<times> parser" where
  "ReadProperties E props ps =
     ReadProperties_loop E (line_number ps) NAME [] [] (CHR 0x00) props ps"

section \<open>Single-precision arithmetic\<close>

text \<open>
  Keyframe times are C \<open>float\<close> values. They are modelled as the real numbers they
  denote, with every operation rounded as IEEE 754 binary32 does it: to the nearest
  value with a 24-bit significand, ties to the even significand, with the exponent held
  at -126 for the subnormal range. Overflow is not modelled: the parser multiplies
  \<open>0.01f\<close> by a value of at most 100 and subtracts times between 0 and 1.
  \<open>round_half_even\<close> rounds to the nearest integer, \<open>binade x\<close> is the exponent of
  a positive \<open>x\<close> (halving down to below 2, or doubling up to 1 at most 126 times).
\<close>

definition round_half_even :: "real \<Rightarrow> int" where
  "round_half_even y =
     (if y - of_int \<lfloor>y\<rfloor> < 1 / 2 then \<lfloor>y\<rfloor>
      else if y - of_int \<lfloor>y\<rfloor> > 1 / 2 then \<lfloor>y\<rfloor> + 1
      else if even \<lfloor>y\<rfloor> then \<lfloor>y\<rfloor> else \<lfloor>y\<rfloor> + 1)"

function above_one :: "real \<Rightarrow> int" where
  "above_one x = (if x \<ge> 2 then above_one (x / 2) + 1 else 0)"
  by pat_completeness auto
termination
proof (relation "measure (\<lambda>x. nat \<lfloor>x\<rfloor>)", goal_cases)
  case 1
  show ?case by simp
next
  case (2 x)
  then have "x / 2 \<le> x - 1" by simp
  then have "\<lfloor>x / 2\<rfloor> \<le> \<lfloor>x - 1\<rfloor>" by (rule floor_mono)
  moreover from 2 have "\<lfloor>x\<rfloor> \<ge> 2" by linarith
  ultimately show ?case by simp
qed

fun below_one :: "nat \<Rightarrow> real \<Rightarrow> int" where
  "below_one k x = (if k = 0 \<or> x \<ge> 1 then 0 else below_one (k - 1) (2 * x) - 1)"

declare above_one.simps [simp del] below_one.simps [simp del]

definition binade :: "real \<Rightarrow> int" where
  "binade x = (if x \<ge> 1 then above_one x else below_one 126 x)"

definition float_round :: "real \<Rightarrow> real" where
  "float_round x =
     (if x = 0 then 0
      else sgn x * of_int (round_half_even (\<bar>x\<bar> / 2 powi (binade \<bar>x\<bar> - 23))) * 2 powi (binade \<bar>x\<bar> - 23))"

lemmas float_eval = float_round_def binade_def above_one.simps below_one.simps round_half_even_def

lemma round_half_even_error: "\<bar>of_int (round_half_even z) - z\<bar> \<le> 1 / 2"
proof -
  define r where "r = z - of_int \<lfloor>z\<rfloor>"
  have r: "0 \<le> r" "r < 1" unfolding r_def by linarith+
  have z: "z = of_int \<lfloor>z\<rfloor> + r" unfolding r_def by simp
  consider "r < 1 / 2" | "r > 1 / 2" | "r = 1 / 2" by linarith
  then show ?thesis
  proof cases
    case 1
    then have "round_half_even z = \<lfloor>z\<rfloor>" by (simp add: round_half_even_def r_def)
    with 1 r show ?thesis by (subst (2) z) simp
  next
    case 2
    then have "round_half_even z = \<lfloor>z\<rfloor> + 1" by (simp add: round_half_even_def r_def)
    with 2 r show ?thesis by (subst (2) z) simp
  next
    case 3
    then have "round_half_even z = \<lfloor>z\<rfloor> \<or> round_half_even z = \<lfloor>z\<rfloor> + 1"
      by (simp add: round_half_even_def r_def)
    with 3 show ?thesis by (subst (2) z, subst (asm) (2) z) auto
  qed
qed

lemma round_half_even_nonneg: "0 \<le> z \<Longrightarrow> 0 \<le> round_half_even z"
  unfolding round_half_even_def by (auto simp: le_floor_iff) 

lemma round_half_even_le: "z \<le> of_int n \<Longrightarrow> round_half_even z \<le> n"
proof -
  assume a: "z \<le> of_int n"
  then have f: "\<lfloor>z\<rfloor> \<le> n" by (simp add: floor_le_iff)
  show ?thesis
  proof (cases "\<lfloor>z\<rfloor> = n")
    case True
    with a have "z - of_int \<lfloor>z\<rfloor> \<le> 0" by simp
    then show ?thesis unfolding round_half_even_def using True by auto
  next
    case False
    with f have "\<lfloor>z\<rfloor> + 1 \<le> n" by simp
    with f show ?thesis unfolding round_half_even_def by auto
  qed
qed

lemma below_one_bounds:
  "0 < k \<Longrightarrow> x < 1 \<Longrightarrow> below_one k x \<le> - 1 \<and> x < 2 powi (below_one k x + 1)"
proof (induction k x rule: below_one.induct)
  case (1 k x)
  from "1.prems" have unf: "below_one k x = below_one (k - 1) (2 * x) - 1"
    by (subst below_one.simps) simp
  show ?case
  proof (cases "k - 1 = 0 \<or> 2 * x \<ge> 1")
    case True
    then have "below_one (k - 1) (2 * x) = 0" by (subst below_one.simps) simp
    with unf "1.prems" show ?thesis by simp
  next
    case False
    then have "0 < k - 1" "2 * x < 1" by simp_all
    from "1.IH"[OF _ this] "1.prems"
    have ih: "below_one (k - 1) (2 * x) \<le> - 1" "2 * x < 2 powi (below_one (k - 1) (2 * x) + 1)"
      by simp_all
    have "(2::real) powi (below_one (k - 1) (2 * x) + 1) = 2 powi (below_one (k - 1) (2 * x)) * 2"
      by (rule power_int_add_1) simp
    with ih unf show ?thesis by simp
  qed
qed

lemma float_round_one: "float_round 1 = 1"
  by (simp add: float_eval)

lemma float_round_unit:
  assumes "0 \<le> y" and "y \<le> 1"
  shows "0 \<le> float_round y \<and> float_round y \<le> 1"
proof (cases "y = 0 \<or> y = 1")
  case True
  then show ?thesis
  proof
    assume "y = 0"
    then show ?thesis by (simp add: float_round_def)
  next
    assume "y = 1"
    then show ?thesis by (simp add: float_round_one)
  qed
next
  case False
  with assms have y: "0 < y" "y < 1" by simp_all
  let ?e = "below_one 126 y"
  let ?u = "(2::real) powi (?e - 23)"
  from below_one_bounds[of 126 y] y have e: "?e \<le> - 1" "y < 2 powi (?e + 1)" by simp_all
  have u: "0 < ?u" by (simp add: zero_less_power_int)
  have eq: "?e + 1 = (?e - 23) + 24" by simp
  have split: "(2::real) powi (?e + 1) = 2 powi (?e - 23) * 2 powi 24"
    by (subst eq, rule power_int_add) simp
  from e(2) u have "y / ?u < 2 powi 24"
    unfolding split by (simp add: field_simps)
  then have "y / ?u \<le> of_int (2 ^ 24)" by simp
  then have "round_half_even (y / ?u) \<le> 2 ^ 24" by (rule round_half_even_le)
  then have "real_of_int (round_half_even (y / ?u)) \<le> real_of_int (2 ^ 24)"
    by (simp only: of_int_le_iff)
  then have "real_of_int (round_half_even (y / ?u)) \<le> 2 powi 24" by simp
  with u have "real_of_int (round_half_even (y / ?u)) * ?u \<le> 2 powi 24 * ?u"
    by (simp add: mult_right_mono)
  also have "\<dots> = 2 powi (?e + 1)" unfolding split by simp
  also from e(1) have "\<dots> \<le> 2 powi 0" by (intro power_int_increasing) simp_all
  finally have upper: "real_of_int (round_half_even (y / ?u)) * ?u \<le> 1" by simp
  from y u have "0 \<le> y / ?u" by simp
  then have "0 \<le> round_half_even (y / ?u)" by (rule round_half_even_nonneg)
  with u have lower: "0 \<le> real_of_int (round_half_even (y / ?u)) * ?u" by simp
  from y have "float_round y = real_of_int (round_half_even (y / ?u)) * ?u"
    by (simp add: float_round_def binade_def)
  with upper lower show ?thesis by simp
qed

lemma float_round_error:
  assumes "0 \<le> y" and "y < 1"
  shows "\<bar>float_round y - y\<bar> \<le> 1 / 2 ^ 25"
proof (cases "y = 0")
  case True
  then show ?thesis by (simp add: float_round_def)
next
  case False
  with assms have y: "0 < y" "y < 1" by simp_all
  let ?e = "below_one 126 y"
  let ?u = "(2::real) powi (?e - 23)"
  from below_one_bounds[of 126 y] y have e: "?e \<le> - 1" by simp
  have u: "0 < ?u" by (simp add: zero_less_power_int)
  from e have "?u \<le> 2 powi (- 24)" by (intro power_int_increasing) simp_all
  then have u24: "?u \<le> 1 / 2 ^ 24" by (simp add: power_int_minus field_simps)
  from y have fr: "float_round y = real_of_int (round_half_even (y / ?u)) * ?u"
    by (simp add: float_round_def binade_def)
  have "\<bar>float_round y - y\<bar> = \<bar>real_of_int (round_half_even (y / ?u)) - y / ?u\<bar> * ?u"
    unfolding fr using u by (simp add: abs_mult[symmetric] field_simps)
  also have "\<dots> \<le> 1 / 2 * ?u"
    using round_half_even_error[of "y / ?u"] u by (intro mult_right_mono) simp_all
  also have "\<dots> \<le> 1 / 2 * (1 / 2 ^ 24)" using u24 by simp
  finally show ?thesis by simp
qed

lemma float_hundredth: "float_round (1 / 100) = 10737418 / 2 ^ 30"
  by (simp add: float_eval)

lemma float_tolerance: "float_round (1 / 10000) = 13743895 / 2 ^ 37"
  by (simp add: float_eval)

lemma float_percent:
  assumes "0 \<le> p" and "p \<le> 100"
  shows "0 \<le> float_round (float_round (1 / 100) * p) \<and> float_round (float_round (1 / 100) * p) \<le> 1
    \<and> \<bar>float_round (float_round (1 / 100) * p) - p / 100\<bar> \<le> 1 / 10 ^ 7"
proof -
  let ?c = "float_round (1 / 100)"
  let ?r = "float_round (?c * p)"
  from assms have y: "0 \<le> ?c * p" "?c * p < 1"
    unfolding float_hundredth by simp_all
  from float_round_unit[OF y(1)] y(2) have b: "0 \<le> ?r" "?r \<le> 1"
    by simp_all
  have d1: "\<bar>?c * p - p / 100\<bar> \<le> 3 / 100000000"
    using assms unfolding float_hundredth by (simp add: abs_le_iff)
  have d2: "\<bar>?r - ?c * p\<bar> \<le> 1 / 33554432"
    using float_round_error[OF y] by simp
  have "\<bar>?r - p / 100\<bar> \<le> \<bar>?r - ?c * p\<bar> + \<bar>?c * p - p / 100\<bar>"
    by (rule abs_triangle_ineq4[of "?r - ?c * p" "p / 100 - ?c * p", simplified, THEN order_trans]) simp
  also from d1 d2 have "\<dots> \<le> 1 / 33554432 + 3 / 100000000" by (rule add_mono[rotated])
  also have "\<dots> \<le> 1 / 10 ^ 7" by simp
  finally show ?thesis using b by simp
qed

text \<open>The product and the difference of two \<open>float\<close> values.\<close>

definition float_mul :: "real \<Rightarrow> real \<Rightarrow> real" where
  "float_mul a b = float_round (a * b)"

definition float_sub :: "real \<Rightarrow> real \<Rightarrow> real" where
  "float_sub a b = float_round (a - b)"

lemma float_sub_self: "float_sub a a = 0"
  by (simp add: float_sub_def float_round_def)

section \<open>Keyframes\<close>

definition valid_identifier_char :: "char \<Rightarrow> bool" where
  "valid_identifier_char c \<longleftrightarrow>
     (c \<ge> CHR ''a'' \<and> c \<le> CHR ''z'')
     \<or> (c \<ge> CHR ''A'' \<and> c \<le> CHR ''Z'')
     \<or> (c \<ge> CHR ''0'' \<and> c \<le> CHR ''9'')
     \<or> (c = CHR ''-'')
     \<or> (c = CHR ''_'')"

definition IsValidIdentifier :: "string \<Rightarrow> bool" where
  "IsValidIdentifier str = (if str = [] then False else list_all valid_identifier_char str)"

text \<open>
  \<open>std::sort\<close> on strings: the ascending arrangement of a list of strings is unique, so
  the library's sort on the byte-wise lexicographic order stands for it.
\<close>

definition std_sort_strings :: "string list \<Rightarrow> string list" where
  "std_sort_strings xs = sort xs"

text \<open>
  The body of the loop over \<open>keyframes_map\<close> in \<open>PostprocessKeyframes\<close>, for one
  sequence: sort the blocks, append every block's property names to
  \<open>property_names\<close>, sort them and erase adjacent duplicates (\<open>std::unique\<close>).
\<close>

definition PostprocessKeyframes_sequence :: "collaborators \<Rightarrow> Keyframes \<Rightarrow> Keyframes" where
  "PostprocessKeyframes_sequence E keyframes =
     (let blocks1 = std_sort E (blocks keyframes);
          names = property_names keyframes @ concat (map (\<lambda>block. map fst (properties block)) blocks1)
      in \<lparr>property_names = remdups_adj (std_sort_strings names), blocks = blocks1\<rparr>)"

definition PostprocessKeyframes :: "collaborators \<Rightarrow> KeyframesMap \<Rightarrow> KeyframesMap" where
  "PostprocessKeyframes E keyframes_map =
     (\<lambda>name. map_option (PostprocessKeyframes_sequence E) (keyframes_map name))"

text \<open>
  Modelled from the spec: String::ToLower (declared outside the files at hand) maps the
  letters A to Z to lower case and leaves every other character.
\<close>

definition ToLower_char :: "char \<Rightarrow> char" where
  "ToLower_char c =
     (case map_of (zip ''ABCDEFGHIJKLMNOPQRSTUVWXYZ'' ''abcdefghijklmnopqrstuvwxyz'') c of
        None \<Rightarrow> c | Some l \<Rightarrow> l)"

definition ToLower :: "string \<Rightarrow> string" where
  "ToLower s = map ToLower_char s"

text \<open>
  One turn of the loop over \<open>rule_list\<close> in \<open>ParseKeyframeBlock\<close>: the values it
  pushes onto \<open>rule_values\<close> (none or one); the product \<open>0.01f * value\<close> is a
  \<open>float\<close> product. An infinity or a NaN read by the scan fails the range test like any
  value outside \<open>[0, 100]\<close> and stands as such a value.
\<close>

definition rule_value :: "collaborators \<Rightarrow> string \<Rightarrow> real list" where
  "rule_value E rule0 =
     (let rule = ToLower rule0 in
      if rule = ''from'' then [0]
      else if rule = ''to'' then [1]
      else (case sscanf_percent E rule of
              (ret, val, cnt) \<Rightarrow>
                if ret = 1 then (if cnt > 0 \<and> val \<ge> 0 \<and> val \<le> 100 then [float_mul (float_round 0.01) val] else [])
                else []))"

definition rule_values :: "collaborators \<Rightarrow> string list \<Rightarrow> real list" where
  "rule_values E rule_list = concat (map (rule_value E) rule_list)"

text \<open>
  One turn of the loop over \<open>rule_values\<close>: \<open>find_if\<close> takes the first block for which
  the \<open>float\<close> difference of its time and the selector is below \<open>0.0001f\<close> in absolute
  value, and its dictionary is replaced; when there is none, a
  new block is pushed at the back. Either way the block then imports the properties.
\<close>

fun merge_selector :: "PropertyDictionary \<Rightarrow> real \<Rightarrow> KeyframeBlock list \<Rightarrow> KeyframeBlock list" where
  "merge_selector props selector [] =
     [\<lparr>normalized_time = selector, properties = Import [] props\<rparr>]"
| "merge_selector props selector (keyframe_block # rest) =
     (if \<bar>float_sub (normalized_time keyframe_block) selector\<bar> < float_round 0.0001
      then keyframe_block\<lparr>properties := Import [] props\<rparr> # rest
      else keyframe_block # merge_selector props selector rest)"

text \<open>\<open>keyframes_map[identifier]\<close>: the entry, default-constructed when absent.\<close>

definition keyframes_entry :: "KeyframesMap \<Rightarrow> string \<Rightarrow> Keyframes" where
  "keyframes_entry keyframes_map identifier =
     (case keyframes_map identifier of
        None \<Rightarrow> \<lparr>property_names = [], blocks = []\<rparr>
      | Some keyframes \<Rightarrow> keyframes)"

definition ParseKeyframeBlock ::
  "collaborators \<Rightarrow> KeyframesMap \<Rightarrow> string \<Rightarrow> string \<Rightarrow> PropertyDictionary \<Rightarrow> parser
     \<Rightarrow> bool \<times> KeyframesMap \<times> parser" where
  "ParseKeyframeBlock E keyframes_map identifier rules props ps =
     (if \<not> IsValidIdentifier identifier then
        (False, keyframes_map,
         Log_Message (InvalidKeyframesIdentifier identifier (line_number ps)) ps)
      else if GetNumProperties props = 0 then (True, keyframes_map, ps)
      else if rule_values E (ExpandString E rules (CHR '','')) = [] then
        (False, keyframes_map, Log_Message (InvalidKeyframesRules rules (line_number ps)) ps)
      else
        (let keyframes = keyframes_entry keyframes_map identifier in
         (True,
          keyframes_map(identifier \<mapsto>
            keyframes\<lparr>blocks :=
              fold (merge_selector props) (rule_values E (ExpandString E rules (CHR '','')))
                (blocks keyframes)\<rparr>),
          ps)))"

section \<open>The style tree and ImportProperties\<close>

datatype NodeType = TAG | CLASS | ID | PSEUDO_CLASS | STRUCTURAL_PSEUDO_CLASS

text \<open>
  Modelled from the spec: StyleSheetNode (declared outside the files at hand) holds the
  properties attached at the node, each with the specificity of the rule that set it,
  and its children, uniquely keyed by name and kind.
\<close>

datatype StyleSheetNode =
  StyleSheetNode
    (node_properties: "(string \<times> Property \<times> int) list")
    (children: "((string \<times> NodeType) \<times> StyleSheetNode) list")

text \<open>
  Modelled from the spec: the merge at a node records, per property, the value and the
  specificity, overwriting an existing entry unless that entry's specificity is higher.
\<close>

definition SetProperty ::
  "string \<Rightarrow> Property \<Rightarrow> int \<Rightarrow> (string \<times> Property \<times> int) list \<Rightarrow> (string \<times> Property \<times> int) list" where
  "SetProperty name v specificity props =
     (case map_of props name of
        None \<Rightarrow> AList.update name (v, specificity) props
      | Some (v0, s0) \<Rightarrow>
          if s0 > specificity then props else AList.update name (v, specificity) props)"

definition Node_ImportProperties :: "PropertyDictionary \<Rightarrow> int \<Rightarrow> StyleSheetNode \<Rightarrow> StyleSheetNode" where
  "Node_ImportProperties props rule_specificity n =
     StyleSheetNode
       (fold (\<lambda>(name, v) acc. SetProperty name v rule_specificity acc) props (node_properties n))
       (children n)"

text \<open>
  Modelled from the spec: \<open>GetChildNode(name, type)\<close> returns the child with that name
  and kind, creating it when there is none. \<open>modify_child\<close> applies \<open>f\<close> to that child;
  \<open>update_leaf\<close> walks a path of such steps from a node and applies \<open>f\<close> at its end, as
  the pointer \<open>leaf_node\<close> of \<open>ImportProperties\<close> does.
\<close>

fun modify_child ::
  "(string \<times> NodeType) \<Rightarrow> (StyleSheetNode \<Rightarrow> StyleSheetNode)
     \<Rightarrow> ((string \<times> NodeType) \<times> StyleSheetNode) list \<Rightarrow> ((string \<times> NodeType) \<times> StyleSheetNode) list" where
  "modify_child k f [] = [(k, f (StyleSheetNode [] []))]"
| "modify_child k f ((k', c) # rest) =
     (if k' = k then (k', f c) # rest else (k', c) # modify_child k f rest)"

fun update_leaf ::
  "(string \<times> NodeType) list \<Rightarrow> (StyleSheetNode \<Rightarrow> StyleSheetNode) \<Rightarrow> StyleSheetNode \<Rightarrow> StyleSheetNode" where
  "update_leaf [] f n = f n"
| "update_leaf (k # ks) f n =
     StyleSheetNode (node_properties n) (modify_child k (\<lambda>c. update_leaf ks f c) (children n))"

text \<open>The locals of one turn of the loop over \<open>nodes\<close> in \<open>ImportProperties\<close>.\<close>

record selector_parts =
  sel_tag :: string
  sel_id :: string
  sel_classes :: "string list"
  sel_pseudo_classes :: "string list"
  sel_structural_pseudo_classes :: "string list"

definition is_delimiter :: "char \<Rightarrow> bool" where
  "is_delimiter c \<longleftrightarrow> c = CHR ''#'' \<or> c = CHR ''.'' \<or> c = CHR '':''"

text \<open>The \<open>switch\<close> on the first character of an identifier.\<close>

definition add_identifier :: "collaborators \<Rightarrow> string \<Rightarrow> selector_parts \<Rightarrow> selector_parts" where
  "add_identifier E identifier parts =
     (case identifier of
        [] \<Rightarrow> parts
      | c # rest \<Rightarrow>
          if c = CHR ''#'' then parts\<lparr>sel_id := rest\<rparr>
          else if c = CHR ''.'' then parts\<lparr>sel_classes := sel_classes parts @ [rest]\<rparr>
          else if c = CHR '':'' then
            (if GetSelector E rest
             then parts\<lparr>sel_structural_pseudo_classes := sel_structural_pseudo_classes parts @ [rest]\<rparr>
             else parts\<lparr>sel_pseudo_classes := sel_pseudo_classes parts @ [rest]\<rparr>)
          else parts\<lparr>sel_tag := identifier\<rparr>)"

text \<open>
  The loop \<open>while (index < name.Length())\<close>: an identifier is the character at
  \<open>index\<close> and every following character up to the next \<open>#\<close>, \<open>.\<close> or \<open>:\<close>.
\<close>

function read_identifiers :: "collaborators \<Rightarrow> string \<Rightarrow> selector_parts \<Rightarrow> selector_parts" where
  "read_identifiers E [] parts = parts"
| "read_identifiers E (c # cs) parts =
     read_identifiers E (dropWhile (\<lambda>x. \<not> is_delimiter x) cs)
       (add_identifier E (c # takeWhile (\<lambda>x. \<not> is_delimiter x) cs) parts)"
  by pat_completeness auto
termination
  by (relation "measure (\<lambda>(E, name, parts). length name)")
     (auto simp: length_dropWhile_le le_imp_less_Suc)

definition no_parts :: selector_parts where
  "no_parts = \<lparr>sel_tag = [], sel_id = [], sel_classes = [], sel_pseudo_classes = [],
                sel_structural_pseudo_classes = []\<rparr>"

text \<open>
  The descent for one compound selector: the tag node, the id node when the id is not
  empty, then the sorted classes, structural pseudo-classes and pseudo-classes.
\<close>

definition descent :: "selector_parts \<Rightarrow> (string \<times> NodeType) list" where
  "descent parts =
     [(sel_tag parts, TAG)]
     @ (if sel_id parts \<noteq> [] then [(sel_id parts, ID)] else [])
     @ map (\<lambda>c. (c, CLASS)) (std_sort_strings (sel_classes parts))
     @ map (\<lambda>c. (c, STRUCTURAL_PSEUDO_CLASS)) (std_sort_strings (sel_structural_pseudo_classes parts))
     @ map (\<lambda>c. (c, PSEUDO_CLASS)) (std_sort_strings (sel_pseudo_classes parts))"

definition leaf_path :: "collaborators \<Rightarrow> string list \<Rightarrow> (string \<times> NodeType) list" where
  "leaf_path E nodes = concat (map (\<lambda>name. descent (read_identifiers E name no_parts)) nodes)"

definition ImportProperties ::
  "collaborators \<Rightarrow> StyleSheetNode \<Rightarrow> string \<Rightarrow> PropertyDictionary \<Rightarrow> int \<Rightarrow> bool \<times> StyleSheetNode" where
  "ImportProperties E node names props rule_specificity =
     (True,
      update_leaf (leaf_path E (ExpandString E names (CHR '' '')))
        (Node_ImportProperties props rule_specificity) node)"

section \<open>Parse\<close>

datatype State = Global | KeyframesIdentifier | KeyframesRules | Invalid

text \<open>The locals and the outputs of \<open>Parse\<close>, and the parser object.\<close>

record parse_vars =
  p_state :: State
  p_keyframes_identifier :: string
  p_node :: StyleSheetNode
  p_keyframes :: KeyframesMap
  p_rule_count :: int
  p_parser :: parser

text \<open>
  Modelled from the spec: \<open>KEYFRAMES\<close> (a string constant declared outside the files at
  hand) is the literal at-rule keyword.
\<close>

definition KEYFRAMES :: string where
  "KEYFRAMES = ''keyframes''"

text \<open>The \<open>switch (state)\<close> of \<open>Parse\<close>, for one token.\<close>

definition Parse_switch :: "collaborators \<Rightarrow> char \<Rightarrow> string \<Rightarrow> parse_vars \<Rightarrow> parse_vars" where
  "Parse_switch E token pre_token_str L =
     (case p_state L of
        Global \<Rightarrow>
          if token = CHR ''{'' then
            (case ReadProperties E [] (p_parser L) of
               (ok, props, ps1) \<Rightarrow>
                 if \<not> ok then L\<lparr>p_parser := ps1\<rparr>
                 else L\<lparr>p_node :=
                          fold (\<lambda>name n. snd (ImportProperties E n name props (p_rule_count L)))
                            (ExpandString E pre_token_str (CHR '','')) (p_node L),
                        p_rule_count := p_rule_count L + 1,
                        p_parser := ps1\<rparr>)
          else if token = CHR ''@'' then L\<lparr>p_state := KeyframesIdentifier\<rparr>
          else L\<lparr>p_parser :=
                   Log_Message (InvalidCharacterGlobal token (line_number (p_parser L))) (p_parser L)\<rparr>
      | KeyframesIdentifier \<Rightarrow>
          if token = CHR ''{'' then
            L\<lparr>p_keyframes_identifier :=
                 (if take (length KEYFRAMES) pre_token_str = KEYFRAMES
                  then StripWhitespace (drop (length KEYFRAMES) pre_token_str) else []),
               p_state := KeyframesRules\<rparr>
          else
            L\<lparr>p_parser :=
                 Log_Message (InvalidCharacterKeyframesIdentifier token (line_number (p_parser L)))
                   (p_parser L),
               p_state := Invalid\<rparr>
      | KeyframesRules \<Rightarrow>
          if token = CHR ''{'' then
            (case ReadProperties E [] (p_parser L) of
               (ok, props, ps1) \<Rightarrow>
                 if \<not> ok then L\<lparr>p_parser := ps1\<rparr>
                 else (case ParseKeyframeBlock E (p_keyframes L) (p_keyframes_identifier L)
                              pre_token_str props ps1 of
                         (ok2, keyframes_map, ps2) \<Rightarrow>
                           L\<lparr>p_keyframes := keyframes_map, p_parser := ps2\<rparr>))
          else if token = CHR ''}'' then L\<lparr>p_state := Global\<rparr>
          else
            L\<lparr>p_parser :=
                 Log_Message (InvalidCharacterKeyframes token (line_number (p_parser L))) (p_parser L),
               p_state := Invalid\<rparr>
      | Invalid \<Rightarrow> L\<lparr>p_state := Invalid\<rparr>)"

lemma FindToken_loop_unread:
  "FindToken_loop buffer tokens remove_token ps = (token, pre, ps') \<Longrightarrow>
     unread ps' \<le> unread ps \<and> (remove_token \<and> token \<noteq> CHR 0x00 \<longrightarrow> unread ps' < unread ps)"
proof (induction buffer tokens remove_token ps rule: FindToken_loop.induct)
  case (1 buffer tokens remove_token ps)
  note prem = "1.prems"[unfolded FindToken_loop.simps[of buffer tokens remove_token ps]]
  obtain r ps1 where rc: "ReadCharacter ps = (r, ps1)" by (cases "ReadCharacter ps")
  show ?case
  proof (cases r)
    case None
    with rc prem ReadCharacter_unread_le[OF rc] show ?thesis by auto
  next
    case (Some character)
    note lt = ReadCharacter_unread[OF rc[unfolded Some]]
    note le = ReadCharacter_unread_le[OF rc]
    show ?thesis
    proof (cases "strchr tokens character")
      case True
      with rc Some prem lt le show ?thesis by (auto split: if_splits)
    next
      case False
      with rc Some prem
      have "FindToken_loop (buffer @ [character]) tokens remove_token (advance ps1) = (token, pre, ps')"
        by simp
      from "1.IH"[OF rc[unfolded Some, symmetric] refl False this] lt show ?thesis by auto
    qed
  qed
qed

lemma FindToken_unread:
  "FindToken tokens True ps = (token, pre, ps') \<Longrightarrow> token \<noteq> CHR 0x00 \<Longrightarrow> unread ps' < unread ps"
  using FindToken_loop_unread[of "[]" tokens True ps token pre ps'] by (simp add: FindToken_def)

lemma FindToken_unread_le:
  "FindToken tokens remove_token ps = (token, pre, ps') \<Longrightarrow> unread ps' \<le> unread ps"
  using FindToken_loop_unread[of "[]" tokens remove_token ps token pre ps'] by (simp add: FindToken_def)

lemma ReadProperties_loop_unread:
  "ReadProperties_loop E rl state name val prev props ps = (ok, props', ps') \<Longrightarrow>
     unread ps' \<le> unread ps"
proof (induction E rl state name val prev props ps rule: ReadProperties_loop.induct)
  case (1 E rl state name val prev props ps)
  note prem = "1.prems"[unfolded ReadProperties_loop.simps[of E rl state name val prev props ps]]
  obtain r ps0 where rc: "ReadCharacter ps = (r, ps0)" by (cases "ReadCharacter ps")
  show ?case
  proof (cases r)
    case None
    with rc prem ReadCharacter_unread_le[OF rc] show ?thesis by (auto split: if_splits)
  next
    case (Some character)
    note rc' = rc[unfolded Some]
    note lt = ReadCharacter_unread[OF rc']
    note IH = "1.IH"[OF rc'[symmetric] refl refl]
    from rc' prem have prem':
      "(case state of
          NAME \<Rightarrow>
            if character = CHR '';'' then
              (if StripWhitespace name \<noteq> []
               then ReadProperties_loop E rl NAME [] val character props
                      (Log_Message (NameWithNoValue (StripWhitespace name) (line_number (advance ps0))) (advance ps0))
               else ReadProperties_loop E rl NAME (StripWhitespace name) val character props (advance ps0))
            else if character = CHR ''}'' then
              (True, props,
               if StripWhitespace (StripWhitespace name) \<noteq> []
               then Log_Message (EndOfRuleInName (StripWhitespace name) (line_number (advance ps0))) (advance ps0)
               else advance ps0)
            else if character = CHR '':'' then
              ReadProperties_loop E rl VALUE (StripWhitespace name) val character props (advance ps0)
            else ReadProperties_loop E rl NAME (name @ [character]) val character props (advance ps0)
        | VALUE \<Rightarrow>
            if character = CHR '';'' then
              (case ParsePropertyDeclaration E props name (StripWhitespace val) rl of
                 (ok, props1) \<Rightarrow>
                   ReadProperties_loop E rl NAME [] [] character props1
                     (if \<not> ok
                      then Log_Message (SyntaxErrorDeclaration name (StripWhitespace val) (line_number (advance ps0))) (advance ps0)
                      else advance ps0))
            else if character = CHR ''}'' then
              (True, props, Log_Message (EndOfRuleInValue name val (line_number (advance ps0))) (advance ps0))
            else
              ReadProperties_loop E rl (if character = CHR 0x22 then QUOTE else VALUE) name
                (val @ [character]) character props (advance ps0)
        | QUOTE \<Rightarrow>
            ReadProperties_loop E rl
              (if character = CHR 0x22 \<and> prev \<noteq> CHR ''/'' then VALUE else QUOTE)
              name (val @ [character]) character props (advance ps0)) = (ok, props', ps')"
      by (simp add: Let_def)
    show ?thesis
    proof (cases state)
      case NAME
      with prem' lt IH(1-4)[OF NAME] show ?thesis
        by (auto split: if_splits)
    next
      case VALUE
      obtain ok1 props1 where pd:
        "ParsePropertyDeclaration E props name (StripWhitespace val) rl = (ok1, props1)"
        by (cases "ParsePropertyDeclaration E props name (StripWhitespace val) rl")
      from VALUE prem' lt IH(5)[OF VALUE _ pd[symmetric]] IH(6)[OF VALUE] pd show ?thesis
        by (auto split: if_splits)
    next
      case QUOTE
      with prem' lt IH(7)[OF QUOTE] show ?thesis by fastforce
    qed
  qed
qed

lemma ReadProperties_unread:
  "ReadProperties E props ps = (ok, props', ps') \<Longrightarrow> unread ps' \<le> unread ps"
  unfolding ReadProperties_def by (rule ReadProperties_loop_unread)

lemma ParseKeyframeBlock_unread:
  "ParseKeyframeBlock E kf identifier rules props ps = (ok, kf', ps') \<Longrightarrow> unread ps' = unread ps"
  by (auto simp: ParseKeyframeBlock_def Let_def split: if_splits)

lemma Parse_switch_unread:
  "unread (p_parser (Parse_switch E token pre L)) \<le> unread (p_parser L)"
proof -
  obtain ok props ps1 where rp: "ReadProperties E [] (p_parser L) = (ok, props, ps1)"
    by (cases "ReadProperties E [] (p_parser L)") auto
  obtain ok2 kf ps2 where pk:
    "ParseKeyframeBlock E (p_keyframes L) (p_keyframes_identifier L) pre props ps1 = (ok2, kf, ps2)"
    by (cases "ParseKeyframeBlock E (p_keyframes L) (p_keyframes_identifier L) pre props ps1") auto
  from ReadProperties_unread[OF rp] ParseKeyframeBlock_unread[OF pk] rp pk show ?thesis
    by (cases "p_state L") (simp_all add: Parse_switch_def)
qed

lemma Parse_tokens_step:
  assumes "FindToken ''{@}'' True (p_parser L) = (token, pre, ps1)" and "token \<noteq> CHR 0x00"
  shows "unread (p_parser (Parse_switch E token pre (L\<lparr>p_parser := ps1\<rparr>))) < unread (p_parser L)"
proof -
  have "unread ps1 < unread (p_parser L)"
    using FindToken_unread[OF assms] .
  moreover have "unread (p_parser (Parse_switch E token pre (L\<lparr>p_parser := ps1\<rparr>))) \<le> unread ps1"
    using Parse_switch_unread[of E token pre "L\<lparr>p_parser := ps1\<rparr>"] by simp
  ultimately show ?thesis by simp
qed

text \<open>The loop \<open>while (char token = FindToken(pre_token_str, "{@}", true))\<close>.\<close>

function Parse_tokens :: "collaborators \<Rightarrow> parse_vars \<Rightarrow> parse_vars" where
  "Parse_tokens E L =
     (case FindToken ''{@}'' True (p_parser L) of
        (token, pre_token_str, ps1) \<Rightarrow>
          if token = CHR 0x00 then L\<lparr>p_parser := ps1\<rparr>
          else if p_state (Parse_switch E token pre_token_str (L\<lparr>p_parser := ps1\<rparr>)) = Invalid
          then Parse_switch E token pre_token_str (L\<lparr>p_parser := ps1\<rparr>)
          else Parse_tokens E (Parse_switch E token pre_token_str (L\<lparr>p_parser := ps1\<rparr>)))"
  by pat_completeness auto
termination
  by (relation "measure (\<lambda>(E, L). unread (p_parser L))")
     (auto intro: Parse_tokens_step[OF sym])

declare Parse_tokens.simps [simp del]

lemma Parse_tokens_unread:
  "unread (p_parser (Parse_tokens E L)) \<le> unread (p_parser L)"
proof (induction E L rule: Parse_tokens.induct)
  case (1 E L)
  obtain token pre ps1 where ft: "FindToken ''{@}'' True (p_parser L) = (token, pre, ps1)"
    by (cases "FindToken ''{@}'' True (p_parser L)") auto
  note le1 = FindToken_unread_le[OF ft]
  note le2 = Parse_switch_unread[of E token pre "L\<lparr>p_parser := ps1\<rparr>"]
  show ?case
  proof (cases "token = CHR 0x00")
    case True
    with ft le1 show ?thesis by (simp add: Parse_tokens.simps[of E L])
  next
    case False
    show ?thesis
    proof (cases "p_state (Parse_switch E token pre (L\<lparr>p_parser := ps1\<rparr>)) = Invalid")
      case True
      with False ft le1 le2 show ?thesis by (simp add: Parse_tokens.simps[of E L])
    next
      case F2: False
      from "1.IH"[OF ft[symmetric] refl False F2] False F2 ft le1 le2 show ?thesis
        by (simp add: Parse_tokens.simps[of E L])
    qed
  qed
qed

lemma Parse_loop_step:
  assumes "FillBuffer (p_parser L) = (True, ps1)"
  shows "unread (p_parser (Parse_tokens E (L\<lparr>p_parser := ps1\<rparr>))) < unread (p_parser L)"
proof -
  have "unread ps1 < unread (p_parser L)"
    using FillBuffer_unread[OF assms] .
  moreover have "unread (p_parser (Parse_tokens E (L\<lparr>p_parser := ps1\<rparr>))) \<le> unread ps1"
    using Parse_tokens_unread[of E "L\<lparr>p_parser := ps1\<rparr>"] by simp
  ultimately show ?thesis by simp
qed

text \<open>The loop \<open>while (FillBuffer())\<close> of \<open>Parse\<close>.\<close>

function Parse_loop :: "collaborators \<Rightarrow> parse_vars \<Rightarrow> parse_vars" where
  "Parse_loop E L =
     (case FillBuffer (p_parser L) of
        (ok, ps1) \<Rightarrow>
          if \<not> ok then L\<lparr>p_parser := ps1\<rparr>
          else if p_state (Parse_tokens E (L\<lparr>p_parser := ps1\<rparr>)) = Invalid
          then Parse_tokens E (L\<lparr>p_parser := ps1\<rparr>)
          else Parse_loop E (Parse_tokens E (L\<lparr>p_parser := ps1\<rparr>)))"
  by pat_completeness auto
termination
  by (relation "measure (\<lambda>(E, L). unread (p_parser L))")
     (auto intro: Parse_loop_step[OF sym])

declare Parse_loop.simps [simp del]

text \<open>
  The end of \<open>Parse\<close>: the keyframes are post-processed and the rule count is
  returned; the tree, the keyframes map and the parser object it leaves behind are
  returned with it.
\<close>

definition Parse_finish ::
  "collaborators \<Rightarrow> parse_vars \<Rightarrow> int \<times> StyleSheetNode \<times> KeyframesMap \<times> parser" where
  "Parse_finish E L =
     (p_rule_count L, p_node L, PostprocessKeyframes E (p_keyframes L), p_parser L)"

definition Parse ::
  "collaborators \<Rightarrow> StyleSheetNode \<Rightarrow> KeyframesMap \<Rightarrow> string \<Rightarrow> parser
     \<Rightarrow> int \<times> StyleSheetNode \<times> KeyframesMap \<times> parser" where
  "Parse E node keyframes_map stream_bytes ps =
     Parse_finish E
       (Parse_loop E
          \<lparr>p_state = Global, p_keyframes_identifier = [], p_node = node,
           p_keyframes = keyframes_map, p_rule_count = 0,
           p_parser = ps\<lparr>line_number := 0, stream := stream_bytes\<rparr>\<rparr>)"

text \<open>
  What \<open>Parse\<close> goes on to return when its inner loop stands at \<open>L\<close>: the inner loop
  runs on, then the outer loop unless the state has become \<open>Invalid\<close>.
\<close>

definition Parse_from ::
  "collaborators \<Rightarrow> parse_vars \<Rightarrow> int \<times> StyleSheetNode \<times> KeyframesMap \<times> parser" where
  "Parse_from E L =
     Parse_finish E
       (if p_state (Parse_tokens E L) = Invalid then Parse_tokens E L
        else Parse_loop E (Parse_tokens E L))"

lemma Parse_loop_from:
  "Parse_finish E (Parse_loop E L) =
     (case FillBuffer (p_parser L) of
        (ok, ps1) \<Rightarrow>
          if \<not> ok then Parse_finish E (L\<lparr>p_parser := ps1\<rparr>)
          else Parse_from E (L\<lparr>p_parser := ps1\<rparr>))"
  by (subst Parse_loop.simps) (simp add: Parse_from_def split: prod.splits)

text \<open>The parser object as its constructor leaves it.\<close>

definition StyleSheetParser :: parser where
  "StyleSheetParser =
     \<lparr>parse_buffer = [], parse_buffer_pos = 0, line_number = 0, stream = [], messages = []\<rparr>"

section \<open>Sample collaborators\<close>

text \<open>
  One concrete choice of the collaborators, on which the theorems below are exercised:
  a declaration parser that stores the value text under the name and rejects an empty
  name or value, a splitter that cuts at the delimiter, trims the pieces and drops the
  empty ones, two structural selectors, an insertion sort, and a scanner for unsigned
  decimal numbers (digits with an optional fraction, rounded to \<open>float\<close>) followed or
  not by a percent sign; on such text it returns what the C library's scan returns.
\<close>

fun split_on :: "char \<Rightarrow> string \<Rightarrow> string \<Rightarrow> string list" where
  "split_on d acc [] = [acc]"
| "split_on d acc (c # cs) = (if c = d then acc # split_on d [] cs else split_on d (acc @ [c]) cs)"

definition sample_ExpandString :: "string \<Rightarrow> char \<Rightarrow> string list" where
  "sample_ExpandString s d = filter (\<lambda>x. x \<noteq> []) (map StripWhitespace (split_on d [] s))"

definition digit_val :: "char \<Rightarrow> nat option" where
  "digit_val c = map_of (zip ''0123456789'' [0, 1, 2, 3, 4, 5, 6, 7, 8, 9]) c"

definition digits_val :: "string \<Rightarrow> nat" where
  "digits_val ds = foldl (\<lambda>n c. 10 * n + the (digit_val c)) 0 ds"

definition is_digit :: "char \<Rightarrow> bool" where
  "is_digit c \<longleftrightarrow> digit_val c \<noteq> None"

definition sample_sscanf :: "string \<Rightarrow> int \<times> real \<times> int" where
  "sample_sscanf s =
     (let ds = takeWhile is_digit s;
          r1 = dropWhile is_digit s;
          fs = (if take 1 r1 = ''.'' then takeWhile is_digit (drop 1 r1) else []);
          r2 = (if take 1 r1 = ''.'' then dropWhile is_digit (drop 1 r1) else r1)
      in if ds = [] \<and> fs = [] then (0, 0, 0)
         else (1, float_round (real (digits_val ds) + real (digits_val fs) / 10 ^ length fs),
               if take 1 r2 = ''%'' then int (length s - length r2) + 1 else 0))"

definition sample_ParsePropertyDeclaration ::
  "PropertyDictionary \<Rightarrow> string \<Rightarrow> string \<Rightarrow> nat \<Rightarrow> bool \<times> PropertyDictionary" where
  "sample_ParsePropertyDeclaration props name val line =
     (if name = [] then (False, props)
      else if val = [] then (False, props)
      else (True, AList.update name val props))"

definition sample :: collaborators where
  "sample =
     \<lparr>ParsePropertyDeclaration = sample_ParsePropertyDeclaration,
      ExpandString = sample_ExpandString,
      GetSelector = (\<lambda>name. name = ''first-child'' \<or> name = ''last-child''),
      sscanf_percent = sample_sscanf,
      std_sort = sort_key normalized_time\<rparr>"

definition parser_on :: "string \<Rightarrow> parser" where
  "parser_on bytes = StyleSheetParser\<lparr>stream := bytes\<rparr>"

section \<open>ReadProperties always reports success\<close>

lemma ReadProperties_loop_True:
  "fst (ReadProperties_loop E rl state name val prev props ps) = True"
proof (induction E rl state name val prev props ps rule: ReadProperties_loop.induct)
  case (1 E rl state name val prev props ps)
  obtain r ps0 where rc: "ReadCharacter ps = (r, ps0)" by (cases "ReadCharacter ps")
  show ?case
  proof (cases r)
    case None
    with rc show ?thesis
      by (subst ReadProperties_loop.simps) simp
  next
    case (Some character)
    note rc' = rc[unfolded Some]
    note IH = "1.IH"[OF rc'[symmetric] refl refl]
    show ?thesis
    proof (cases state)
      case NAME
      with rc' IH(1-4)[OF NAME] show ?thesis
        by (subst ReadProperties_loop.simps) (simp add: Let_def)
    next
      case VALUE
      obtain ok1 props1 where pd:
        "ParsePropertyDeclaration E props name (StripWhitespace val) rl = (ok1, props1)"
        by (cases "ParsePropertyDeclaration E props name (StripWhitespace val) rl")
      from VALUE rc' IH(5)[OF VALUE _ pd[symmetric]] IH(6)[OF VALUE] pd show ?thesis
        by (subst ReadProperties_loop.simps) (simp add: Let_def)
    next
      case QUOTE
      with rc' IH(7)[OF QUOTE] show ?thesis
        by (subst ReadProperties_loop.simps) (simp add: Let_def)
    qed
  qed
qed

text \<open>
  C10. For every parser state, whatever the stream still holds and whatever the
  declaration parser answers, \<open>ReadProperties\<close> returns true. So in the \<open>Global\<close> state
  the token \<open>{\<close> never takes the branch that skips the block: the rule count after the
  \<open>switch\<close> is one more than before, and the state stays \<open>Global\<close>.
\<close>

theorem ReadProperties_always_true:
  "fst (ReadProperties E props ps) = True
   \<and> p_rule_count (Parse_switch E (CHR ''{'') pre (L\<lparr>p_state := Global\<rparr>)) = p_rule_count L + 1
   \<and> p_state (Parse_switch E (CHR ''{'') pre (L\<lparr>p_state := Global\<rparr>)) = Global"
proof -
  have t: "fst (ReadProperties E props ps) = True" for props ps
    unfolding ReadProperties_def by (rule ReadProperties_loop_True)
  obtain ok props1 ps1 where rp: "ReadProperties E [] (p_parser L) = (ok, props1, ps1)"
    by (cases "ReadProperties E [] (p_parser L)") auto
  with t[of "[]" "p_parser L"] have "ok" by simp
  with rp t show ?thesis by (simp add: Parse_switch_def)
qed

theorem ReadProperties_always_true_witness:
  "fst (ReadProperties sample [] (parser_on ''top 1px; }'')) = True
   \<and> p_rule_count (Parse_switch sample (CHR ''{'') ''.x ''
        \<lparr>p_state = Global, p_keyframes_identifier = [], p_node = StyleSheetNode [] [],
         p_keyframes = Map.empty, p_rule_count = 0, p_parser = parser_on ''top 1px; }''\<rparr>) = 1"
  using ReadProperties_always_true[of sample "[]" "parser_on ''top 1px; }''" "''.x ''"
      "\<lparr>p_state = Global, p_keyframes_identifier = [], p_node = StyleSheetNode [] [],
        p_keyframes = Map.empty, p_rule_count = 0, p_parser = parser_on ''top 1px; }''\<rparr>"]
  by simp

section \<open>Running the parser on concrete input\<close>

lemmas reader_simps =
  StyleSheetParser_def parser_on_def ReadCharacter_def ReadCharacter_loop.simps FillBuffer_def
  advance_refill_def advance_def cur_def FindToken_def FindToken_loop.simps strchr_def
  Log_Message_def Let_def

lemmas scanner_simps =
  ReadProperties_def ReadProperties_loop.simps StripWhitespace_def IsWhitespace_def

lemmas parse_simps =
  Parse_def Parse_finish_def Parse_loop.simps Parse_tokens.simps Parse_switch_def

lemmas tree_simps =
  ImportProperties_def leaf_path_def descent_def no_parts_def add_identifier_def
  is_delimiter_def std_sort_strings_def Node_ImportProperties_def

text \<open>
  C6. On the input \<open>.x { top 1px; }\<close>, with a fresh tree and no keyframes, and with
  any collaborators whose \<open>ExpandString\<close> gives the one selector \<open>.x\<close> for the selector
  text: \<open>Parse\<close> returns the rule count 1, the tree holds the path of the empty tag and
  the class \<open>x\<close> with no property at that leaf, and the one message logged is the
  warning for the name \<open>top 1px\<close> that has no value.
\<close>

theorem missing_colon_scenario:
  assumes "ExpandString E ''.x '' (CHR '','') = [''.x'']"
    and "ExpandString E ''.x'' (CHR '' '') = [''.x'']"
  shows "Parse E (StyleSheetNode [] []) Map.empty ''.x { top 1px; }'' StyleSheetParser =
    (1,
     StyleSheetNode [] [(([], TAG), StyleSheetNode [] [((''x'', CLASS), StyleSheetNode [] [])])],
     Map.empty,
     \<lparr>parse_buffer = ''.x { top 1px; }'', parse_buffer_pos = 15, line_number = 0, stream = [],
      messages = [NameWithNoValue ''top 1px'' 0]\<rparr>)"
  using assms
  by (simp add: reader_simps scanner_simps parse_simps tree_simps PostprocessKeyframes_def)

theorem missing_colon_scenario_witness:
  "fst (Parse sample (StyleSheetNode [] []) Map.empty ''.x { top 1px; }'' StyleSheetParser) = 1
   \<and> messages (snd (snd (snd
         (Parse sample (StyleSheetNode [] []) Map.empty ''.x { top 1px; }'' StyleSheetParser))))
       = [NameWithNoValue ''top 1px'' 0]"
proof -
  have a: "ExpandString sample ''.x '' (CHR '','') = [''.x'']"
    by (simp add: sample_def sample_ExpandString_def StripWhitespace_def IsWhitespace_def)
  have b: "ExpandString sample ''.x'' (CHR '' '') = [''.x'']"
    by (simp add: sample_def sample_ExpandString_def StripWhitespace_def IsWhitespace_def)
  show ?thesis using missing_colon_scenario[OF a b] by simp
qed

section \<open>Illegal keyframes syntax halts the parse\<close>

text \<open>
  C4. Let the inner loop of \<open>Parse\<close> stand at \<open>L\<close> in state \<open>KeyframesIdentifier\<close> or
  \<open>KeyframesRules\<close>, and let the next token be one the state does not expect (any token
  but \<open>{\<close> in the first, any but \<open>{\<close> and \<open>}\<close> in the second). Then the inner loop
  ends at once in state \<open>Invalid\<close>: its result is \<open>L\<close> with the parser as \<open>FindToken\<close> left
  it plus one warning, so the tree, the keyframes map and the rule count are those of
  \<open>L\<close> and nothing is read after the token. \<open>Parse\<close> then returns that rule count, that
  tree and the post-processed keyframes map of \<open>L\<close>.
\<close>

theorem unexpected_keyframes_token_halts:
  assumes "FindToken ''{@}'' True (p_parser L) = (token, pre, ps1)"
    and "token \<noteq> CHR 0x00"
    and "(p_state L = KeyframesIdentifier \<and> token \<noteq> CHR ''{'')
         \<or> (p_state L = KeyframesRules \<and> token \<noteq> CHR ''{'' \<and> token \<noteq> CHR ''}'')"
  shows "Parse_tokens E L =
           L\<lparr>p_parser :=
                Log_Message
                  (if p_state L = KeyframesIdentifier
                   then InvalidCharacterKeyframesIdentifier token (line_number ps1)
                   else InvalidCharacterKeyframes token (line_number ps1)) ps1,
              p_state := Invalid\<rparr>
         \<and> Parse_from E L =
           (p_rule_count L, p_node L, PostprocessKeyframes E (p_keyframes L),
            Log_Message
              (if p_state L = KeyframesIdentifier
               then InvalidCharacterKeyframesIdentifier token (line_number ps1)
               else InvalidCharacterKeyframes token (line_number ps1)) ps1)"
proof -
  let ?w = "if p_state L = KeyframesIdentifier
            then InvalidCharacterKeyframesIdentifier token (line_number ps1)
            else InvalidCharacterKeyframes token (line_number ps1)"
  from assms(3) have sw:
    "Parse_switch E token pre (L\<lparr>p_parser := ps1\<rparr>) =
       L\<lparr>p_parser := Log_Message ?w ps1, p_state := Invalid\<rparr>"
    by (auto simp: Parse_switch_def)
  have pt: "Parse_tokens E L = L\<lparr>p_parser := Log_Message ?w ps1, p_state := Invalid\<rparr>"
    by (subst Parse_tokens.simps) (simp add: assms(1,2) sw)
  show ?thesis
    unfolding pt by (simp add: Parse_from_def pt Parse_finish_def)
qed

theorem unexpected_keyframes_token_halts_witness:
  "p_state (Parse_tokens sample
      \<lparr>p_state = KeyframesRules, p_keyframes_identifier = ''spin'', p_node = StyleSheetNode [] [],
       p_keyframes = Map.empty, p_rule_count = 3, p_parser = parser_on '' @ a { b: c; }''\<rparr>) = Invalid
   \<and> fst (Parse_from sample
      \<lparr>p_state = KeyframesRules, p_keyframes_identifier = ''spin'', p_node = StyleSheetNode [] [],
       p_keyframes = Map.empty, p_rule_count = 3, p_parser = parser_on '' @ a { b: c; }''\<rparr>) = 3
   \<and> stream (snd (snd (snd (Parse_from sample
      \<lparr>p_state = KeyframesRules, p_keyframes_identifier = ''spin'', p_node = StyleSheetNode [] [],
       p_keyframes = Map.empty, p_rule_count = 3, p_parser = parser_on '' @ a { b: c; }''\<rparr>)))) = []
   \<and> parse_buffer_pos (snd (snd (snd (Parse_from sample
      \<lparr>p_state = KeyframesRules, p_keyframes_identifier = ''spin'', p_node = StyleSheetNode [] [],
       p_keyframes = Map.empty, p_rule_count = 3, p_parser = parser_on '' @ a { b: c; }''\<rparr>)))) = 2"
proof -
  let ?L = "\<lparr>p_state = KeyframesRules, p_keyframes_identifier = ''spin'', p_node = StyleSheetNode [] [],
       p_keyframes = Map.empty, p_rule_count = 3, p_parser = parser_on '' @ a { b: c; }''\<rparr>"
  have ft: "FindToken ''{@}'' True (p_parser ?L) =
      (CHR ''@'', '' '',
       \<lparr>parse_buffer = '' @ a { b: c; }'', parse_buffer_pos = 2, line_number = 0, stream = [],
        messages = []\<rparr>)"
    by (simp add: reader_simps)
  show ?thesis
    using unexpected_keyframes_token_halts[OF ft, of sample]
    by (simp add: Log_Message_def)
qed

section \<open>When ParseKeyframeBlock fails\<close>



lemmas keyframe_simps =
  ParseKeyframeBlock_def IsValidIdentifier_def valid_identifier_char_def GetNumProperties_def
  rule_values_def rule_value_def ToLower_def ToLower_char_def keyframes_entry_def Import_def

lemmas float_simps = float_mul_def float_sub_def float_eval

lemmas sample_simps =
  sample_def sample_ExpandString_def sample_sscanf_def sample_ParsePropertyDeclaration_def
  digit_val_def digits_val_def is_digit_def StripWhitespace_def IsWhitespace_def



section \<open>Properties of the keyframes map that the parse keeps\<close>

text \<open>
  The keyframes map changes only through \<open>ParseKeyframeBlock\<close>, so a property that
  \<open>ParseKeyframeBlock\<close> keeps is kept by the \<open>switch\<close> and by both loops of \<open>Parse\<close>.
\<close>

lemma Parse_switch_keeps:
  assumes step: "\<And>kf identifier rules props ps.
      P kf \<Longrightarrow> P (fst (snd (ParseKeyframeBlock E kf identifier rules props ps)))"
    and "P (p_keyframes L)"
  shows "P (p_keyframes (Parse_switch E token pre L))"
proof -
  obtain ok props ps1 where rp: "ReadProperties E [] (p_parser L) = (ok, props, ps1)"
    by (cases "ReadProperties E [] (p_parser L)") auto
  obtain ok2 kf ps2 where pk:
    "ParseKeyframeBlock E (p_keyframes L) (p_keyframes_identifier L) pre props ps1 = (ok2, kf, ps2)"
    by (cases "ParseKeyframeBlock E (p_keyframes L) (p_keyframes_identifier L) pre props ps1") auto
  from step[OF assms(2), of "p_keyframes_identifier L" pre props ps1] pk have "P kf" by simp
  with assms(2) rp pk show ?thesis
    by (cases "p_state L") (simp_all add: Parse_switch_def)
qed

lemma Parse_tokens_keeps:
  "(\<And>kf identifier rules props ps.
      P kf \<Longrightarrow> P (fst (snd (ParseKeyframeBlock E kf identifier rules props ps)))) \<Longrightarrow>
   P (p_keyframes L) \<Longrightarrow> P (p_keyframes (Parse_tokens E L))"
proof (induction E L rule: Parse_tokens.induct)
  case (1 E L)
  note step = "1.prems"(1)
  obtain token pre ps1 where ft: "FindToken ''{@}'' True (p_parser L) = (token, pre, ps1)"
    by (cases "FindToken ''{@}'' True (p_parser L)") auto
  have sw: "P (p_keyframes (Parse_switch E token pre (L\<lparr>p_parser := ps1\<rparr>)))"
    using Parse_switch_keeps[of P E "L\<lparr>p_parser := ps1\<rparr>" token pre, OF step] "1.prems"(2)
    by simp
  show ?case
  proof (cases "token = CHR 0x00")
    case True
    with ft "1.prems"(2) show ?thesis by (subst Parse_tokens.simps) simp
  next
    case False
    show ?thesis
    proof (cases "p_state (Parse_switch E token pre (L\<lparr>p_parser := ps1\<rparr>)) = Invalid")
      case True
      with False ft sw show ?thesis by (subst Parse_tokens.simps) simp
    next
      case F2: False
      from "1.IH"[OF ft[symmetric] refl False F2 step sw] False F2 ft show ?thesis
        by (subst Parse_tokens.simps) simp
    qed
  qed
qed

lemma Parse_loop_keeps:
  "(\<And>kf identifier rules props ps.
      P kf \<Longrightarrow> P (fst (snd (ParseKeyframeBlock E kf identifier rules props ps)))) \<Longrightarrow>
   P (p_keyframes L) \<Longrightarrow> P (p_keyframes (Parse_loop E L))"
proof (induction E L rule: Parse_loop.induct)
  case (1 E L)
  note step = "1.prems"(1)
  obtain ok ps1 where fb: "FillBuffer (p_parser L) = (ok, ps1)"
    by (cases "FillBuffer (p_parser L)") auto
  have pt: "P (p_keyframes (Parse_tokens E (L\<lparr>p_parser := ps1\<rparr>)))"
    using Parse_tokens_keeps[of P E "L\<lparr>p_parser := ps1\<rparr>", OF step] "1.prems"(2) by simp
  show ?case
  proof (cases ok)
    case False
    with fb "1.prems"(2) show ?thesis by (subst Parse_loop.simps) simp
  next
    case True
    show ?thesis
    proof (cases "p_state (Parse_tokens E (L\<lparr>p_parser := ps1\<rparr>)) = Invalid")
      case T2: True
      with True fb pt show ?thesis by (subst Parse_loop.simps) simp
    next
      case F2: False
      from "1.IH"[OF fb[symmetric] _ F2 step pt] True F2 fb show ?thesis
        by (subst Parse_loop.simps) simp
    qed
  qed
qed

text \<open>The keyframes map that \<open>Parse\<close> hands to \<open>PostprocessKeyframes\<close>.\<close>

definition parsed_keyframes :: "collaborators \<Rightarrow> StyleSheetNode \<Rightarrow> KeyframesMap \<Rightarrow> string \<Rightarrow> parser \<Rightarrow> KeyframesMap" where
  "parsed_keyframes E node keyframes_map stream_bytes ps =
     p_keyframes
       (Parse_loop E
          \<lparr>p_state = Global, p_keyframes_identifier = [], p_node = node,
           p_keyframes = keyframes_map, p_rule_count = 0,
           p_parser = ps\<lparr>line_number := 0, stream := stream_bytes\<rparr>\<rparr>)"

lemma Parse_keyframes:
  "fst (snd (snd (Parse E node keyframes_map stream_bytes ps))) =
     PostprocessKeyframes E (parsed_keyframes E node keyframes_map stream_bytes ps)"
  by (simp add: Parse_def Parse_finish_def parsed_keyframes_def)

lemma parsed_keyframes_keeps:
  assumes "\<And>kf identifier rules props ps.
      P kf \<Longrightarrow> P (fst (snd (ParseKeyframeBlock E kf identifier rules props ps)))"
    and "P keyframes_map"
  shows "P (parsed_keyframes E node keyframes_map stream_bytes ps)"
  unfolding parsed_keyframes_def
  using Parse_loop_keeps[of P E, OF assms(1)] assms(2) by simp

section \<open>Normalized times lie between 0 and 1\<close>

definition unit_time :: "KeyframeBlock \<Rightarrow> bool" where
  "unit_time b \<longleftrightarrow> 0 \<le> normalized_time b \<and> normalized_time b \<le> 1"

definition times_in_unit :: "KeyframesMap \<Rightarrow> bool" where
  "times_in_unit kf \<longleftrightarrow> (\<forall>name k. kf name = Some k \<longrightarrow> list_all unit_time (blocks k))"

lemma rule_value_unit: "v \<in> set (rule_value E r) \<Longrightarrow> 0 \<le> v \<and> v \<le> 1"
  using float_percent
  by (auto simp: rule_value_def float_mul_def Let_def split: if_splits prod.splits)

lemma rule_values_unit: "v \<in> set (rule_values E rule_list) \<Longrightarrow> 0 \<le> v \<and> v \<le> 1"
  by (auto simp: rule_values_def dest: rule_value_unit)

lemma merge_selector_unit:
  "list_all unit_time bs \<Longrightarrow> 0 \<le> selector \<Longrightarrow> selector \<le> 1 \<Longrightarrow>
     list_all unit_time (merge_selector props selector bs)"
  by (induction bs) (auto simp: unit_time_def)

lemma fold_merge_selector_unit:
  "list_all unit_time bs \<Longrightarrow> (\<forall>v \<in> set vs. 0 \<le> v \<and> v \<le> 1) \<Longrightarrow>
     list_all unit_time (fold (merge_selector props) vs bs)"
  by (induction vs arbitrary: bs) (auto intro: merge_selector_unit)

lemma ParseKeyframeBlock_unit:
  assumes "times_in_unit kf"
  shows "times_in_unit (fst (snd (ParseKeyframeBlock E kf identifier rules props ps)))"
proof -
  have "list_all unit_time (blocks (keyframes_entry kf identifier))"
    using assms by (auto simp: keyframes_entry_def times_in_unit_def split: option.splits)
  then have "list_all unit_time
      (fold (merge_selector props) (rule_values E (ExpandString E rules (CHR '','')))
         (blocks (keyframes_entry kf identifier)))"
    by (rule fold_merge_selector_unit) (auto dest: rule_values_unit)
  with assms show ?thesis
    by (auto simp: ParseKeyframeBlock_def Let_def times_in_unit_def)
qed

lemma PostprocessKeyframes_unit:
  assumes "\<And>xs. mset (std_sort E xs) = mset xs" and "times_in_unit kf"
  shows "times_in_unit (PostprocessKeyframes E kf)"
proof -
  have "set (std_sort E xs) = set xs" for xs
    using assms(1)[of xs] by (metis set_mset_mset)
  with assms(2) show ?thesis
    by (auto simp: times_in_unit_def PostprocessKeyframes_def PostprocessKeyframes_sequence_def
        Let_def list_all_iff)
qed

text \<open>
  C7, as the code has it. Every value \<open>ParseKeyframeBlock\<close> takes from a rule list lies
  between 0 and 1. A selector that is \<open>from\<close> after lower-casing gives 0, one that is
  \<open>to\<close> gives 1. Any other selector is scanned: when the scan reads one number \<open>p\<close>
  and then reaches the percent sign (the count is positive), and \<open>0 \<le> p \<le> 100\<close>, the
  selector gives the \<open>float\<close> product of \<open>0.01f\<close> and \<open>p\<close>, whatever follows the percent
  sign; otherwise (no number, the percent sign not reached as for a bare number, or
  \<open>p\<close> outside \<open>[0, 100]\<close>) it gives no value. That product lies between 0 and 1 and is
  within \<open>1 / 10^7\<close> of \<open>p / 100\<close>, without being equal to it in general. So
  \<open>ParseKeyframeBlock\<close> keeps every block's time between 0 and 1, and when \<open>std::sort\<close>
  returns a permutation of its input, every block of every sequence that \<open>Parse\<close>
  returns from an empty keyframes map has its time between 0 and 1.
\<close>

theorem normalized_time_in_unit_interval:
  assumes "\<And>xs. mset (std_sort E xs) = mset xs"
  shows "(\<forall>v \<in> set (rule_values E rule_list). 0 \<le> v \<and> v \<le> 1)
    \<and> (ToLower r = ''from'' \<longrightarrow> rule_value E r = [0])
    \<and> (ToLower r = ''to'' \<longrightarrow> rule_value E r = [1])
    \<and> (ToLower r \<noteq> ''from'' \<and> ToLower r \<noteq> ''to'' \<and> sscanf_percent E (ToLower r) = (ret, p, cnt) \<longrightarrow>
         rule_value E r =
           (if ret = 1 \<and> cnt > 0 \<and> 0 \<le> p \<and> p \<le> 100 then [float_mul (float_round 0.01) p] else []))
    \<and> (0 \<le> p \<and> p \<le> 100 \<longrightarrow>
         0 \<le> float_mul (float_round 0.01) p \<and> float_mul (float_round 0.01) p \<le> 1
         \<and> \<bar>float_mul (float_round 0.01) p - p / 100\<bar> \<le> 1 / 10 ^ 7)
    \<and> (times_in_unit kf \<longrightarrow>
         times_in_unit (fst (snd (ParseKeyframeBlock E kf ident rules props ps))))
    \<and> times_in_unit (fst (snd (snd (Parse E node Map.empty stream_bytes ps0))))"
proof -
  have "times_in_unit (parsed_keyframes E node Map.empty stream_bytes ps0)"
  proof (rule parsed_keyframes_keeps[where P = times_in_unit, OF ParseKeyframeBlock_unit])
    show "times_in_unit Map.empty" by (simp add: times_in_unit_def)
  qed
  then have a: "times_in_unit (fst (snd (snd (Parse E node Map.empty stream_bytes ps0))))"
    unfolding Parse_keyframes by (rule PostprocessKeyframes_unit[OF assms])
  have b: "\<forall>v \<in> set (rule_values E rule_list). 0 \<le> v \<and> v \<le> 1"
    using rule_values_unit[of _ E rule_list] by blast
  have c: "(ToLower r = ''from'' \<longrightarrow> rule_value E r = [0])
    \<and> (ToLower r = ''to'' \<longrightarrow> rule_value E r = [1])
    \<and> (ToLower r \<noteq> ''from'' \<and> ToLower r \<noteq> ''to'' \<and> sscanf_percent E (ToLower r) = (ret, p, cnt) \<longrightarrow>
         rule_value E r =
           (if ret = 1 \<and> cnt > 0 \<and> 0 \<le> p \<and> p \<le> 100 then [float_mul (float_round 0.01) p] else []))"
    by (auto simp: rule_value_def Let_def)
  have d: "0 \<le> p \<and> p \<le> 100 \<longrightarrow>
         0 \<le> float_mul (float_round 0.01) p \<and> float_mul (float_round 0.01) p \<le> 1
         \<and> \<bar>float_mul (float_round 0.01) p - p / 100\<bar> \<le> 1 / 10 ^ 7"
    using float_percent[of p] by (simp add: float_mul_def)
  have e: "times_in_unit kf \<longrightarrow>
         times_in_unit (fst (snd (ParseKeyframeBlock E kf ident rules props ps)))"
    by (simp add: ParseKeyframeBlock_unit)
  from a b c d e show ?thesis by blast
qed

theorem normalized_time_in_unit_interval_witness:
  "rule_value sample ''FROM'' = [0]
   \<and> rule_value sample ''to'' = [1]
   \<and> rule_value sample ''50%'' = [1 / 2]
   \<and> rule_value sample ''33%'' = [11072962 / 2 ^ 25]
   \<and> \<bar>11072962 / 2 ^ 25 - 33 / 100\<bar> \<le> (1 / 10 ^ 7 :: real)
   \<and> rule_value sample ''50'' = []
   \<and> rule_value sample ''150%'' = []
   \<and> times_in_unit (fst (snd (ParseKeyframeBlock sample Map.empty ''spin'' ''from, 50%'' [(''top'', ''1px'')] StyleSheetParser)))
   \<and> times_in_unit (fst (snd (snd (Parse sample (StyleSheetNode [] []) Map.empty
         ''@keyframes spin { 50% { top: 1px; } }'' StyleSheetParser))))"
proof -
  have perm: "\<And>xs. mset (std_sort sample xs) = mset xs" by (simp add: sample_def)
  have s1: "sscanf_percent sample (ToLower ''50%'') = (1, 50, 3)"
    and s2: "sscanf_percent sample (ToLower ''50'') = (1, 50, 0)"
    and s3: "sscanf_percent sample (ToLower ''150%'') = (1, 150, 4)"
    and s4: "sscanf_percent sample (ToLower ''33%'') = (1, 33, 3)"
    by (simp_all add: sample_simps float_simps ToLower_def ToLower_char_def)
  have l: "ToLower ''FROM'' = ''from''" "ToLower ''to'' = ''to''"
    "ToLower ''50%'' \<noteq> ''from''" "ToLower ''50%'' \<noteq> ''to''"
    "ToLower ''50'' \<noteq> ''from''" "ToLower ''50'' \<noteq> ''to''"
    "ToLower ''150%'' \<noteq> ''from''" "ToLower ''150%'' \<noteq> ''to''"
    "ToLower ''33%'' \<noteq> ''from''" "ToLower ''33%'' \<noteq> ''to''"
    by (simp_all add: ToLower_def ToLower_char_def)
  have f: "float_mul (float_round 0.01) 50 = 1 / 2"
    "float_mul (float_round 0.01) 33 = 11072962 / 2 ^ 25"
    by (simp_all add: float_simps)
  have e: "times_in_unit Map.empty" by (simp add: times_in_unit_def)
  show ?thesis
    using normalized_time_in_unit_interval[OF perm, where r = "''FROM''"]
      normalized_time_in_unit_interval[OF perm, where r = "''to''"]
      normalized_time_in_unit_interval[OF perm, where r = "''50%''" and ret = 1 and p = 50 and cnt = 3]
      normalized_time_in_unit_interval[OF perm, where r = "''33%''" and ret = 1 and p = 33 and cnt = 3]
      normalized_time_in_unit_interval[OF perm, where r = "''50''" and ret = 1 and p = 50 and cnt = 0]
      normalized_time_in_unit_interval[OF perm, where r = "''150%''" and ret = 1 and p = 150 and cnt = 4]
      normalized_time_in_unit_interval[OF perm, where kf = Map.empty and ident = "''spin''"
        and rules = "''from, 50%''" and props = "[(''top'', ''1px'')]" and ps = StyleSheetParser]
      normalized_time_in_unit_interval[OF perm, where node = "StyleSheetNode [] []"
        and stream_bytes = "''@keyframes spin { 50% { top: 1px; } }''" and ?ps0.0 = StyleSheetParser]
      s1 s2 s3 s4 l e f
    by simp
qed

text \<open>
  The claim as the spec words it fails twice. The selector \<open>33%\<close> does not give
  \<open>33 / 100\<close>: the scan reads 33, and the \<open>float\<close> product of \<open>0.01f\<close> and 33 is
  \<open>11072962 / 2^25\<close>, about 0.32999998. And the selector \<open>50%abc\<close>, which is none of
  \<open>from\<close>, \<open>to\<close> or a percentage, gives the value one half: the scan reads 50 and the
  percent sign and does not look further.
\<close>

theorem normalized_time_in_unit_interval_counterexample:
  "rule_value sample ''33%'' \<noteq> [33 / 100] \<and> rule_value sample ''50%abc'' = [1 / 2]"
  by (simp add: rule_value_def ToLower_def ToLower_char_def sample_simps float_simps)

section \<open>One block per time, last write wins, and the post-processing\<close>

text \<open>
  \<open>near selector b\<close> is the test of \<open>find_if\<close> in \<open>ParseKeyframeBlock\<close>. A list of blocks
  is \<open>separated\<close> when no block is near the time of an earlier one; \<open>keyframes_inv\<close>
  says that every sequence is separated and has no property names yet, which is how
  \<open>ParseKeyframeBlock\<close> leaves a map that started empty.
\<close>

definition near :: "real \<Rightarrow> KeyframeBlock \<Rightarrow> bool" where
  "near selector keyframe_block \<longleftrightarrow>
     \<bar>float_sub (normalized_time keyframe_block) selector\<bar> < float_round 0.0001"

lemma near_own_time: "near (normalized_time c) c"
  by (simp add: near_def float_sub_self float_tolerance)

fun separated :: "KeyframeBlock list \<Rightarrow> bool" where
  "separated [] = True"
| "separated (b # bs) = (list_all (\<lambda>c. \<not> near (normalized_time c) b) bs \<and> separated bs)"

definition keyframes_inv :: "KeyframesMap \<Rightarrow> bool" where
  "keyframes_inv kf \<longleftrightarrow>
     (\<forall>name k. kf name = Some k \<longrightarrow> separated (blocks k) \<and> property_names k = [])"

lemma merge_selector_times:
  "list_all (\<lambda>c. Q (normalized_time c)) bs \<Longrightarrow> Q selector \<Longrightarrow>
     list_all (\<lambda>c. Q (normalized_time c)) (merge_selector props selector bs)"
  by (induction bs) auto

lemma merge_selector_separated:
  "separated bs \<Longrightarrow> separated (merge_selector props selector bs)"
proof (induction bs)
  case Nil
  then show ?case by simp
next
  case (Cons b bs)
  show ?case
  proof (cases "\<bar>float_sub (normalized_time b) selector\<bar> < float_round 0.0001")
    case True
    with Cons.prems show ?thesis by (simp add: near_def)
  next
    case False
    from Cons.prems have "list_all (\<lambda>c. \<not> near (normalized_time c) b) bs" by simp
    then have "list_all (\<lambda>c. \<not> near (normalized_time c) b) (merge_selector props selector bs)"
      using False by (intro merge_selector_times) (simp_all add: near_def)
    with False Cons show ?thesis by simp
  qed
qed

lemma fold_merge_selector_separated:
  "separated bs \<Longrightarrow> separated (fold (merge_selector props) vs bs)"
  by (induction vs arbitrary: bs) (auto intro: merge_selector_separated)

lemma separated_distinct: "separated bs \<Longrightarrow> distinct (map normalized_time bs)"
proof (induction bs)
  case Nil
  then show ?case by simp
next
  case (Cons b bs)
  have "normalized_time b \<notin> normalized_time ` set bs"
  proof
    assume "normalized_time b \<in> normalized_time ` set bs"
    then obtain c where c: "c \<in> set bs" "normalized_time c = normalized_time b" by auto
    with Cons.prems have "\<not> near (normalized_time b) b" by (auto simp: list_all_iff)
    with near_own_time[of b] show False by simp
  qed
  with Cons show ?case by simp
qed

lemma find_merge_selector_same:
  "\<exists>b. find (near v) (merge_selector props v bs) = Some b \<and> properties b = Import [] props"
  by (induction bs) (auto simp: near_def float_sub_self float_tolerance)

lemma find_merge_selector_other:
  "find (near v) bs = Some b \<Longrightarrow> properties b = Import [] props \<Longrightarrow>
     \<exists>b'. find (near v) (merge_selector props w bs) = Some b' \<and> properties b' = Import [] props"
  by (induction bs) (auto simp: near_def split: if_splits)

lemma find_fold_merge_selector_other:
  "find (near v) bs = Some b \<Longrightarrow> properties b = Import [] props \<Longrightarrow>
     \<exists>b'. find (near v) (fold (merge_selector props) ws bs) = Some b' \<and> properties b' = Import [] props"
proof (induction ws arbitrary: bs b)
  case Nil
  then show ?case by simp
next
  case (Cons w ws)
  from find_merge_selector_other[OF Cons.prems, of w] obtain b'
    where "find (near v) (merge_selector props w bs) = Some b'" "properties b' = Import [] props"
    by blast
  from Cons.IH[OF this] show ?case by simp
qed

lemma find_fold_merge_selector:
  "v \<in> set vs \<Longrightarrow>
     \<exists>b. find (near v) (fold (merge_selector props) vs bs) = Some b \<and> properties b = Import [] props"
proof (induction vs arbitrary: bs)
  case Nil
  then show ?case by simp
next
  case (Cons w ws)
  show ?case
  proof (cases "w = v")
    case True
    from find_merge_selector_same[of v props bs] obtain b
      where "find (near v) (merge_selector props v bs) = Some b" "properties b = Import [] props"
      by blast
    from find_fold_merge_selector_other[OF this, of ws] True show ?thesis by simp
  next
    case False
    with Cons.prems have "v \<in> set ws" by simp
    from Cons.IH[OF this] show ?thesis by simp
  qed
qed

lemma separated_find_time:
  "separated bs \<Longrightarrow> find (near v) bs = Some b \<Longrightarrow> c \<in> set bs \<Longrightarrow> normalized_time c = v \<Longrightarrow> b = c"
proof (induction bs)
  case Nil
  then show ?case by simp
next
  case (Cons a bs)
  show ?case
  proof (cases "near v a")
    case True
    with Cons.prems have ba: "b = a" by simp
    show ?thesis
    proof (cases "c = a")
      case True
      with ba show ?thesis by simp
    next
      case False
      with Cons.prems have "c \<in> set bs" by simp
      with Cons.prems(1,4) have "\<not> near v a" by (auto simp: list_all_iff)
      with True show ?thesis by simp
    qed
  next
    case False
    with Cons.prems(4) near_own_time[of c] have "c \<noteq> a" by auto
    with Cons False show ?thesis by simp
  qed
qed

lemma distinct_filter_key:
  "distinct (map f xs) \<Longrightarrow> k \<in> set xs \<Longrightarrow> filter (\<lambda>x. f x = f k) xs = [k]"
proof (induction xs)
  case Nil
  then show ?case by simp
next
  case (Cons a xs)
  show ?case
  proof (cases "a = k")
    case True
    from Cons.prems(1) have "f a \<notin> f ` set xs" by simp
    then have "filter (\<lambda>x. f x = f a) xs = []"
      by (simp add: filter_empty_conv) (metis imageI)
    with True show ?thesis by simp
  next
    case False
    with Cons show ?thesis by auto
  qed
qed

lemma update_fresh: "k \<notin> fst ` set al \<Longrightarrow> AList.update k v al = al @ [(k, v)]"
  by (induction al) auto

lemma Import_distinct: "distinct (map fst (d @ other)) \<Longrightarrow> Import d other = d @ other"
proof (induction other arbitrary: d)
  case Nil
  then show ?case by (simp add: Import_def)
next
  case (Cons a other)
  obtain k v where a: "a = (k, v)" by (cases a)
  from Cons.prems a have fresh: "k \<notin> fst ` set d" by auto
  from Cons.prems a have "distinct (map fst ((d @ [(k, v)]) @ other))" by auto
  from Cons.IH[OF this] have "Import (d @ [(k, v)]) other = d @ (k, v) # other" by simp
  then show ?case by (simp add: a Import_def update_fresh[OF fresh])
qed

lemma filter_std_sort:
  assumes "\<And>xs. mset (std_sort E xs) = mset xs" and "filter P xs = [b]"
  shows "filter P (std_sort E xs) = [b]"
proof -
  have "mset (filter P (std_sort E xs)) = mset (filter P xs)"
    by (simp add: assms(1))
  with assms(2) have "mset (filter P (std_sort E xs)) = {#b#}" by simp
  then show ?thesis by (simp only: mset_single_iff)
qed


lemma ParseKeyframeBlock_inv:
  assumes "keyframes_inv kf"
  shows "keyframes_inv (fst (snd (ParseKeyframeBlock E kf ident rules props ps)))"
proof -
  have "separated (blocks (keyframes_entry kf ident))"
    and n: "property_names (keyframes_entry kf ident) = []"
    using assms by (auto simp: keyframes_entry_def keyframes_inv_def split: option.splits)
  then have "separated
      (fold (merge_selector props) (rule_values E (ExpandString E rules (CHR '','')))
         (blocks (keyframes_entry kf ident)))"
    by (intro fold_merge_selector_separated)
  with assms n show ?thesis
    by (auto simp: ParseKeyframeBlock_def Let_def keyframes_inv_def)
qed

lemma sorted_distinct_unique:
  assumes "mset ys = mset xs" and "sorted (map f ys)" and "distinct (map f xs)"
  shows "sort_key f xs = ys"
proof (rule properties_for_sort_key[OF assms(1) _ assms(2)])
  fix k assume k: "k \<in> set ys"
  from assms(1) have s: "set ys = set xs" by (metis set_mset_mset)
  from assms(1,3) have d: "distinct (map f ys)"
    by (metis distinct_map mset_eq_setD mset_map set_map distinct_count_atmost_1 mset_eq_imp_distinct_iff)
  have eq: "(\<lambda>x. f k = f x) = (\<lambda>x. f x = f k)" by auto
  show "filter (\<lambda>x. f k = f x) ys = filter (\<lambda>x. f k = f x) xs"
    unfolding eq using distinct_filter_key[OF d k] distinct_filter_key[OF assms(3), of k] k s by simp
qed



lemma merge_selector_keeps_times:
  "normalized_time ` set bs \<subseteq> normalized_time ` set (merge_selector props w bs)"
  by (induction bs) auto

lemma fold_merge_selector_keeps_times:
  "normalized_time ` set bs \<subseteq> normalized_time ` set (fold (merge_selector props) ws bs)"
proof (induction ws arbitrary: bs)
  case Nil
  then show ?case by simp
next
  case (Cons w ws)
  from merge_selector_keeps_times[of bs props w] Cons.IH[of "merge_selector props w bs"]
  show ?case by auto
qed

lemma keyframes_entry_Postprocess:
  "kf name = Some k \<Longrightarrow>
     keyframes_entry (PostprocessKeyframes E kf) name = PostprocessKeyframes_sequence E k"
  by (simp add: keyframes_entry_def PostprocessKeyframes_def)

lemma PostprocessKeyframes_distinct:
  assumes "\<And>xs. mset (std_sort E xs) = mset xs" and "keyframes_inv kf"
    and "PostprocessKeyframes E kf name = Some k"
  shows "distinct (map normalized_time (blocks k))"
proof -
  from assms(3) obtain k0 where k0: "kf name = Some k0" "k = PostprocessKeyframes_sequence E k0"
    by (auto simp: PostprocessKeyframes_def)
  with assms(2) have "distinct (map normalized_time (blocks k0))"
    by (auto simp: keyframes_inv_def intro: separated_distinct)
  moreover have "mset (map normalized_time (std_sort E (blocks k0))) = mset (map normalized_time (blocks k0))"
    using assms(1) by (metis mset_map)
  ultimately have "distinct (map normalized_time (std_sort E (blocks k0)))"
    by (metis mset_eq_imp_distinct_iff)
  with k0 show ?thesis by (simp add: PostprocessKeyframes_sequence_def Let_def)
qed

text \<open>
  The tolerance test in single precision on two pairs of selectors. After \<open>25%\<close>, the
  selector \<open>25.01%\<close> is stored as \<open>8391963 / 2^25\<close>; its \<open>float\<close> distance to one quarter
  is below \<open>0.0001f\<close> and the block at one quarter is overwritten. After \<open>0%\<close>, the
  selector \<open>0.01%\<close> is stored as \<open>13743895 / 2^37\<close>, which is \<open>0.0001f\<close> itself, and a
  second block is pushed.
\<close>

lemma merge_tolerance_examples:
  "rule_value sample ''25.01%'' = [8391963 / 2 ^ 25]"
  "merge_selector props (8391963 / 2 ^ 25) [\<lparr>normalized_time = 1 / 4, properties = old\<rparr>]
     = [\<lparr>normalized_time = 1 / 4, properties = Import [] props\<rparr>]"
  "rule_value sample ''0.01%'' = [13743895 / 2 ^ 37]"
  "merge_selector props (13743895 / 2 ^ 37) [\<lparr>normalized_time = 0, properties = old\<rparr>]
     = [\<lparr>normalized_time = 0, properties = old\<rparr>,
        \<lparr>normalized_time = 13743895 / 2 ^ 37, properties = Import [] props\<rparr>]"
proof -
  have s: "sscanf_percent sample (ToLower ''25.01%'') = (1, float_round (2501 / 100), 6)"
    "sscanf_percent sample (ToLower ''0.01%'') = (1, float_round (1 / 100), 5)"
    by (simp_all add: sample_simps ToLower_def ToLower_char_def)
  have r: "float_round (2501 / 100) = 13112443 / 2 ^ 19"
    "float_round (1 / 100) = 10737418 / 2 ^ 30"
    by (simp_all add: float_eval)
  have m: "float_mul (float_round 0.01) (13112443 / 2 ^ 19) = 8391963 / 2 ^ 25"
    "float_mul (float_round 0.01) (10737418 / 2 ^ 30) = 13743895 / 2 ^ 37"
    by (simp_all add: float_simps)
  have l: "ToLower ''25.01%'' \<noteq> ''from''" "ToLower ''25.01%'' \<noteq> ''to''"
    "ToLower ''0.01%'' \<noteq> ''from''" "ToLower ''0.01%'' \<noteq> ''to''"
    by (simp_all add: ToLower_def ToLower_char_def)
  show "rule_value sample ''25.01%'' = [8391963 / 2 ^ 25]"
    using s l r m by (simp add: rule_value_def)
  show "rule_value sample ''0.01%'' = [13743895 / 2 ^ 37]"
    using s l r m by (simp add: rule_value_def)
  show "merge_selector props (8391963 / 2 ^ 25) [\<lparr>normalized_time = 1 / 4, properties = old\<rparr>]
     = [\<lparr>normalized_time = 1 / 4, properties = Import [] props\<rparr>]"
    by (simp add: float_simps)
  show "merge_selector props (13743895 / 2 ^ 37) [\<lparr>normalized_time = 0, properties = old\<rparr>]
     = [\<lparr>normalized_time = 0, properties = old\<rparr>,
        \<lparr>normalized_time = 13743895 / 2 ^ 37, properties = Import [] props\<rparr>]"
    by (simp add: float_simps)
qed

text \<open>
  C3, as the code has it. Let the keyframes map satisfy \<open>keyframes_inv\<close>, let
  \<open>std::sort\<close> return a permutation, and let \<open>ParseKeyframeBlock\<close> be called with a
  valid identifier. With an empty dictionary the call changes nothing: the blocks keep
  the declarations they had. With any dictionary the map it leaves satisfies
  \<open>keyframes_inv\<close> again, and after post-processing no sequence has two blocks with the
  same time. With a non-empty dictionary and a rule list that yields the time \<open>v\<close>,
  the first block that \<open>find_if\<close> accepts for \<open>v\<close> holds, after the call, a fresh
  dictionary into which the new declarations were imported; and when \<open>v\<close> is the time
  of a block of the sequence before the call (or of one after it, which covers a
  time that an earlier selector of the same list created), the post-processed sequence
  has exactly one block with time \<open>v\<close>, and this is its dictionary: the new
  declarations themselves, with nothing of the old block left.
\<close>

theorem duplicate_time_last_write_wins:
  assumes perm: "\<And>xs. mset (std_sort E xs) = mset xs"
    and inv: "keyframes_inv kf"
    and valid: "IsValidIdentifier ident"
  shows "fst (snd (ParseKeyframeBlock E kf ident rules [] ps)) = kf
    \<and> keyframes_inv (fst (snd (ParseKeyframeBlock E kf ident rules props ps)))
    \<and> (\<forall>name k. PostprocessKeyframes E (fst (snd (ParseKeyframeBlock E kf ident rules props ps))) name = Some k
          \<longrightarrow> distinct (map normalized_time (blocks k)))
    \<and> (props \<noteq> [] \<and> v \<in> set (rule_values E (ExpandString E rules (CHR '',''))) \<longrightarrow>
          (\<exists>b. find (near v) (blocks (keyframes_entry
                  (fst (snd (ParseKeyframeBlock E kf ident rules props ps))) ident)) = Some b
             \<and> properties b = Import [] props))
    \<and> (props \<noteq> [] \<and> v \<in> set (rule_values E (ExpandString E rules (CHR '','')))
        \<and> v \<in> normalized_time ` set (blocks (keyframes_entry kf ident)) \<longrightarrow>
          filter (\<lambda>b. normalized_time b = v)
            (blocks (keyframes_entry
               (PostprocessKeyframes E (fst (snd (ParseKeyframeBlock E kf ident rules props ps)))) ident))
          = [\<lparr>normalized_time = v, properties = Import [] props\<rparr>])
    \<and> (props \<noteq> [] \<and> v \<in> set (rule_values E (ExpandString E rules (CHR '','')))
        \<and> v \<in> normalized_time ` set (blocks (keyframes_entry
                  (fst (snd (ParseKeyframeBlock E kf ident rules props ps))) ident)) \<longrightarrow>
          filter (\<lambda>b. normalized_time b = v)
            (blocks (keyframes_entry
               (PostprocessKeyframes E (fst (snd (ParseKeyframeBlock E kf ident rules props ps)))) ident))
          = [\<lparr>normalized_time = v, properties = Import [] props\<rparr>])
    \<and> (distinct (map fst props) \<longrightarrow> Import [] props = props)"
proof -
  let ?vs = "rule_values E (ExpandString E rules (CHR '',''))"
  let ?bs = "blocks (keyframes_entry kf ident)"
  let ?bs' = "fold (merge_selector props) ?vs ?bs"
  let ?kf' = "fst (snd (ParseKeyframeBlock E kf ident rules props ps))"
  let ?post = "blocks (keyframes_entry (PostprocessKeyframes E ?kf') ident)"
  let ?new = "\<lparr>normalized_time = v, properties = Import [] props\<rparr>"
  have same: "fst (snd (ParseKeyframeBlock E kf ident rules [] ps)) = kf"
    using valid by (simp add: ParseKeyframeBlock_def GetNumProperties_def)
  have inv': "keyframes_inv ?kf'" by (rule ParseKeyframeBlock_inv[OF inv])
  have dist: "\<forall>name k. PostprocessKeyframes E ?kf' name = Some k
      \<longrightarrow> distinct (map normalized_time (blocks k))"
    using PostprocessKeyframes_distinct[OF perm inv'] by blast
  have imp: "distinct (map fst props) \<longrightarrow> Import [] props = props"
    using Import_distinct[of "[]" props] by simp
  have merged: "(\<exists>b. find (near v) (blocks (keyframes_entry ?kf' ident)) = Some b
             \<and> properties b = Import [] props)
      \<and> (v \<in> normalized_time ` set ?bs \<longrightarrow> filter (\<lambda>b. normalized_time b = v) ?post = [?new])
      \<and> (v \<in> normalized_time ` set (blocks (keyframes_entry ?kf' ident)) \<longrightarrow>
            filter (\<lambda>b. normalized_time b = v) ?post = [?new])"
    if nonempty: "props \<noteq> []" and v: "v \<in> set ?vs"
  proof -
    from v have ne: "?vs \<noteq> []" by auto
    have kf': "?kf' = kf(ident \<mapsto> (keyframes_entry kf ident)\<lparr>blocks := ?bs'\<rparr>)"
      using valid nonempty ne by (simp add: ParseKeyframeBlock_def GetNumProperties_def Let_def)
    then have entry: "blocks (keyframes_entry ?kf' ident) = ?bs'"
      by (simp add: keyframes_entry_def)
    have sep: "separated ?bs'"
      using inv' kf' by (auto simp: keyframes_inv_def split: if_splits)
    from find_fold_merge_selector[OF v, of props ?bs] obtain b
      where b: "find (near v) ?bs' = Some b" "properties b = Import [] props" by blast
    have keep: "v \<in> normalized_time ` set (blocks (keyframes_entry ?kf' ident))"
      if "v \<in> normalized_time ` set ?bs"
      unfolding entry using that fold_merge_selector_keeps_times[of ?bs props ?vs] by auto
    have one: "filter (\<lambda>b. normalized_time b = v) ?post = [?new]"
      if present: "v \<in> normalized_time ` set (blocks (keyframes_entry ?kf' ident))"
    proof -
      from present entry obtain c where c: "c \<in> set ?bs'" "normalized_time c = v" by auto
      from separated_find_time[OF sep b(1) c] b(2) c(2)
      have ceq: "c = ?new" by (cases c) simp
      from distinct_filter_key[OF separated_distinct[OF sep] c(1)] c(2)
      have "filter (\<lambda>b. normalized_time b = v) ?bs' = [c]" by simp
      from filter_std_sort[OF perm this] ceq
      have "filter (\<lambda>b. normalized_time b = v) (std_sort E ?bs') = [?new]" by simp
      moreover have "?post = std_sort E ?bs'"
        unfolding kf' by (simp add: keyframes_entry_def PostprocessKeyframes_def
            PostprocessKeyframes_sequence_def Let_def)
      ultimately show ?thesis by simp
    qed
    from b entry keep one show ?thesis by auto
  qed
  from same inv' dist imp merged show ?thesis by blast
qed

lemma sorted_distinct_remdups_adj:
  "sorted (xs :: 'a :: linorder list) \<Longrightarrow> distinct (remdups_adj xs)"
proof (induction xs rule: remdups_adj.induct)
  case (3 x y xs)
  show ?case
  proof (cases "x = y")
    case True
    with 3 show ?thesis by simp
  next
    case False
    from "3.prems" have "x \<le> y" "\<forall>z \<in> set xs. y \<le> z" by auto
    with False have "x \<notin> set (y # xs)" by auto
    with False 3 show ?thesis by simp
  qed
qed simp_all

lemma sorted_names:
  "sorted (remdups_adj (std_sort_strings names)) \<and> distinct (remdups_adj (std_sort_strings names))
   \<and> set (remdups_adj (std_sort_strings names)) = set names"
  by (simp add: std_sort_strings_def sorted_distinct_remdups_adj)

text \<open>
  C5. Let \<open>std::sort\<close> return an ascending permutation of the blocks (what the C++
  standard promises of it; nothing is assumed on equal times). The keyframes map that
  \<open>Parse\<close> builds from an empty one satisfies \<open>keyframes_inv\<close>, and \<open>Parse\<close> returns its
  post-processing. For every map with \<open>keyframes_inv\<close> and every sequence \<open>k\<close> of it,
  \<open>PostprocessKeyframes\<close> leaves the blocks as the stable sort by time (\<open>sort_key\<close>)
  arranges them, ascending by time, and the property names sorted, free of duplicates
  and with exactly the names that occur in the blocks.
\<close>

theorem PostprocessKeyframes_sorts:
  assumes perm: "\<And>xs. mset (std_sort E xs) = mset xs"
    and srt: "\<And>xs. sorted (map normalized_time (std_sort E xs))"
  shows "keyframes_inv (parsed_keyframes E node Map.empty stream_bytes ps)
    \<and> fst (snd (snd (Parse E node Map.empty stream_bytes ps)))
        = PostprocessKeyframes E (parsed_keyframes E node Map.empty stream_bytes ps)
    \<and> (keyframes_inv kf \<and> kf name = Some k \<longrightarrow>
          (\<exists>k'. PostprocessKeyframes E kf name = Some k'
             \<and> blocks k' = sort_key normalized_time (blocks k)
             \<and> sorted (map normalized_time (blocks k'))
             \<and> sorted (property_names k') \<and> distinct (property_names k')
             \<and> set (property_names k') = (\<Union>b \<in> set (blocks k). fst ` set (properties b))))"
proof -
  have a: "keyframes_inv (parsed_keyframes E node Map.empty stream_bytes ps)"
  proof (rule parsed_keyframes_keeps[where P = keyframes_inv, OF ParseKeyframeBlock_inv])
    show "keyframes_inv Map.empty" by (simp add: keyframes_inv_def)
  qed
  have c: "\<exists>k'. PostprocessKeyframes E kf name = Some k'
             \<and> blocks k' = sort_key normalized_time (blocks k)
             \<and> sorted (map normalized_time (blocks k'))
             \<and> sorted (property_names k') \<and> distinct (property_names k')
             \<and> set (property_names k') = (\<Union>b \<in> set (blocks k). fst ` set (properties b))"
    if inv: "keyframes_inv kf" and k: "kf name = Some k"
  proof -
    from inv k have sep: "separated (blocks k)" and n: "property_names k = []"
      by (auto simp: keyframes_inv_def)
    have st: "sort_key normalized_time (blocks k) = std_sort E (blocks k)"
      by (rule sorted_distinct_unique[OF perm srt separated_distinct[OF sep]])
    have s: "set (std_sort E (blocks k)) = set (blocks k)"
      using perm[of "blocks k"] by (metis set_mset_mset)
    let ?k' = "PostprocessKeyframes_sequence E k"
    have "PostprocessKeyframes E kf name = Some ?k'"
      using k by (simp add: PostprocessKeyframes_def)
    moreover have "blocks ?k' = sort_key normalized_time (blocks k)"
      by (simp add: PostprocessKeyframes_sequence_def Let_def st)
    moreover have "sorted (map normalized_time (blocks ?k'))"
      by (simp add: PostprocessKeyframes_sequence_def Let_def srt)
    moreover have "sorted (property_names ?k') \<and> distinct (property_names ?k')
        \<and> set (property_names ?k') = (\<Union>b \<in> set (blocks k). fst ` set (properties b))"
      using sorted_names[of "concat (map (\<lambda>block. map fst (properties block)) (std_sort E (blocks k)))"] s n
      by (simp add: PostprocessKeyframes_sequence_def Let_def)
    ultimately show ?thesis by blast
  qed
  from a Parse_keyframes[of E node Map.empty stream_bytes ps] c show ?thesis by blast
qed


text \<open>A keyframes map on which the two theorems are exercised.\<close>

definition sample_keyframes :: KeyframesMap where
  "sample_keyframes =
     [''spin'' \<mapsto>
        \<lparr>property_names = [],
         blocks = [\<lparr>normalized_time = 1, properties = [(''top'', ''9px''), (''left'', ''2px'')]\<rparr>,
                   \<lparr>normalized_time = 0, properties = [(''top'', ''1px''), (''bottom'', ''3px'')]\<rparr>]\<rparr>]"

lemma sample_keyframes_inv: "keyframes_inv sample_keyframes"
proof -
  have far: "\<not> \<bar>float_sub 1 0\<bar> < float_round (1 / 10000)"
    by (simp add: float_simps)
  show ?thesis
    by (simp add: keyframes_inv_def sample_keyframes_def near_def far)
qed

lemma sample_std_sort:
  "mset (std_sort sample xs) = mset xs" "sorted (map normalized_time (std_sort sample xs))"
  by (simp_all add: sample_def)

theorem duplicate_time_last_write_wins_witness:
  "filter (\<lambda>b. normalized_time b = 0)
     (blocks (keyframes_entry
        (PostprocessKeyframes sample
           (fst (snd (ParseKeyframeBlock sample sample_keyframes ''spin'' ''0%, 0%''
                        [(''top'', ''5px'')] StyleSheetParser)))) ''spin''))
   = [\<lparr>normalized_time = 0, properties = [(''top'', ''5px'')]\<rparr>]
   \<and> fst (snd (ParseKeyframeBlock sample sample_keyframes ''spin'' ''0%, 0%'' [] StyleSheetParser))
     = sample_keyframes"
proof -
  have valid: "IsValidIdentifier ''spin''"
    by (simp add: IsValidIdentifier_def valid_identifier_char_def)
  have v: "0 \<in> set (rule_values sample (ExpandString sample ''0%, 0%'' (CHR '','')))"
    by (simp add: sample_simps float_simps rule_values_def rule_value_def ToLower_def ToLower_char_def)
  have present: "0 \<in> normalized_time ` set (blocks (keyframes_entry sample_keyframes ''spin''))"
    by (simp add: keyframes_entry_def sample_keyframes_def)
  have d: "distinct (map fst [(''top'', ''5px'')])" by simp
  have n: "[(''top'', ''5px'')] \<noteq> []" by simp
  from duplicate_time_last_write_wins[OF sample_std_sort(1) sample_keyframes_inv valid,
      where props = "[(''top'', ''5px'')]" and v = 0 and rules = "''0%, 0%''" and ps = StyleSheetParser]
    present d n v
  show ?thesis by auto
qed

text \<open>
  The claim as the spec words it fails on
  \<open>@keyframes spin { 0% { top: 1px; } 0% { } }\<close>: the second rule names the offset of the
  first block and its declarations are the last parsed for that offset, yet they are
  empty, \<open>ParseKeyframeBlock\<close> returns before the merge, and after post-processing the
  block at 0 still holds \<open>top: 1px\<close>.
\<close>

theorem duplicate_time_last_write_wins_counterexample:
  "fst (snd (snd (Parse sample (StyleSheetNode [] []) Map.empty
       ''@keyframes spin { 0% { top: 1px; } 0% { } }'' StyleSheetParser))) ''spin''
   = Some \<lparr>property_names = [''top''],
            blocks = [\<lparr>normalized_time = 0, properties = [(''top'', ''1px'')]\<rparr>]\<rparr>"
  by (simp add: reader_simps scanner_simps parse_simps keyframe_simps sample_simps float_simps
      KEYFRAMES_def PostprocessKeyframes_def PostprocessKeyframes_sequence_def std_sort_strings_def)

theorem PostprocessKeyframes_sorts_witness:
  "\<exists>k'. PostprocessKeyframes sample sample_keyframes ''spin'' = Some k'
      \<and> blocks k' = [\<lparr>normalized_time = 0, properties = [(''top'', ''1px''), (''bottom'', ''3px'')]\<rparr>,
                     \<lparr>normalized_time = 1, properties = [(''top'', ''9px''), (''left'', ''2px'')]\<rparr>]
      \<and> sorted (map normalized_time (blocks k'))
      \<and> sorted (property_names k') \<and> distinct (property_names k')
      \<and> set (property_names k') = {''top'', ''left'', ''bottom''}"
proof -
  let ?k = "\<lparr>property_names = [],
         blocks = [\<lparr>normalized_time = 1, properties = [(''top'', ''9px''), (''left'', ''2px'')]\<rparr>,
                   \<lparr>normalized_time = 0, properties = [(''top'', ''1px''), (''bottom'', ''3px'')]\<rparr>]\<rparr>"
  have k: "sample_keyframes ''spin'' = Some ?k"
    by (simp add: sample_keyframes_def)
  note t = PostprocessKeyframes_sorts[OF sample_std_sort, where kf = sample_keyframes
      and name = "''spin''" and k = ?k, THEN conjunct2, THEN conjunct2, rule_format,
      OF conjI[OF sample_keyframes_inv k]]
  have s: "sort_key normalized_time (blocks ?k) =
      [\<lparr>normalized_time = 0, properties = [(''top'', ''1px''), (''bottom'', ''3px'')]\<rparr>,
       \<lparr>normalized_time = 1, properties = [(''top'', ''9px''), (''left'', ''2px'')]\<rparr>]"
    by simp
  have u: "(\<Union>b \<in> set (blocks ?k). fst ` set (properties b)) = {''top'', ''left'', ''bottom''}"
    by auto
  from t show ?thesis unfolding s u .
qed

section \<open>The order of classes and pseudo-classes does not matter\<close>

text \<open>
  A compound selector is written as a tag without \<open>#\<close>, \<open>.\<close> or \<open>:\<close> (possibly empty)
  followed by components; a component is one of these three characters followed by a
  name without them.
\<close>

definition no_delimiter :: "string \<Rightarrow> bool" where
  "no_delimiter s = list_all (\<lambda>x. \<not> is_delimiter x) s"

definition component :: "string \<Rightarrow> bool" where
  "component c = (case c of [] \<Rightarrow> False | d # name \<Rightarrow> is_delimiter d \<and> no_delimiter name)"

definition is_id :: "string \<Rightarrow> bool" where
  "is_id c = (case c of [] \<Rightarrow> False | d # name \<Rightarrow> d = CHR ''#'')"

lemma is_id_simps: "is_id (d # name) \<longleftrightarrow> d = CHR ''#''" "\<not> is_id []"
  by (simp_all add: is_id_def)

lemma scan_identifier:
  assumes "no_delimiter name" and "rest = [] \<or> is_delimiter (hd rest)"
  shows "takeWhile (\<lambda>x. \<not> is_delimiter x) (name @ rest) = name"
    and "dropWhile (\<lambda>x. \<not> is_delimiter x) (name @ rest) = rest"
proof -
  from assms(1) have a: "\<forall>x \<in> set name. \<not> is_delimiter x"
    by (simp add: no_delimiter_def list_all_iff)
  from assms(2) have t: "takeWhile (\<lambda>x. \<not> is_delimiter x) rest = []"
    and d: "dropWhile (\<lambda>x. \<not> is_delimiter x) rest = rest"
    by (cases rest; auto)+
  from a t show "takeWhile (\<lambda>x. \<not> is_delimiter x) (name @ rest) = name"
    by (simp add: takeWhile_append2)
  from a d show "dropWhile (\<lambda>x. \<not> is_delimiter x) (name @ rest) = rest"
    by (simp add: dropWhile_append2)
qed

lemma concat_components_head:
  "list_all component cs \<Longrightarrow> concat cs = [] \<or> is_delimiter (hd (concat cs))"
  by (cases cs) (auto simp: component_def split: list.splits)

lemma read_identifiers_components:
  "list_all component cs \<Longrightarrow>
     read_identifiers E (concat cs) parts = fold (add_identifier E) cs parts"
proof (induction cs arbitrary: parts)
  case Nil
  then show ?case by simp
next
  case (Cons c cs)
  from Cons.prems obtain d name where c: "c = d # name" "is_delimiter d" "no_delimiter name"
    by (auto simp: component_def split: list.splits)
  from Cons.prems have wf: "list_all component cs" by simp
  note rest = concat_components_head[OF wf]
  from Cons.IH[OF wf] scan_identifier[OF c(3) rest] show ?case
    by (simp add: c(1))
qed

lemma read_identifiers_compound:
  assumes "no_delimiter tag" and "list_all component cs"
  shows "read_identifiers E (tag @ concat cs) parts =
           fold (add_identifier E) cs (if tag = [] then parts else parts\<lparr>sel_tag := tag\<rparr>)"
proof (cases tag)
  case Nil
  with assms(2) show ?thesis by (simp add: read_identifiers_components)
next
  case (Cons t ts)
  with assms(1) have t: "\<not> is_delimiter t" "no_delimiter ts"
    by (simp_all add: no_delimiter_def)
  note rest = concat_components_head[OF assms(2)]
  from t(1) have "add_identifier E (t # ts) parts = parts\<lparr>sel_tag := t # ts\<rparr>"
    by (simp add: add_identifier_def is_delimiter_def)
  with scan_identifier[OF t(2) rest] read_identifiers_components[OF assms(2)] Cons
  show ?thesis by simp
qed

lemma fold_add_identifier:
  "list_all component cs \<Longrightarrow>
     fold (add_identifier E) cs parts =
       parts\<lparr>sel_id := (if filter is_id cs = [] then sel_id parts else tl (last (filter is_id cs))),
             sel_classes := sel_classes parts @ map tl (filter (\<lambda>c. hd c = CHR ''.'') cs),
             sel_pseudo_classes := sel_pseudo_classes parts
               @ map tl (filter (\<lambda>c. hd c = CHR '':'' \<and> \<not> GetSelector E (tl c)) cs),
             sel_structural_pseudo_classes := sel_structural_pseudo_classes parts
               @ map tl (filter (\<lambda>c. hd c = CHR '':'' \<and> GetSelector E (tl c)) cs)\<rparr>"
proof (induction cs arbitrary: parts)
  case Nil
  then show ?case by simp
next
  case (Cons c cs)
  from Cons.prems obtain d name where c: "c = d # name" "is_delimiter d"
    by (auto simp: component_def split: list.splits)
  from Cons.prems have "list_all component cs" by simp
  note IH = Cons.IH[OF this]
  from c(2) consider "d = CHR ''#''" | "d = CHR ''.''" | "d = CHR '':''"
    by (auto simp: is_delimiter_def)
  then show ?case
  proof cases
    case 1
    then have "add_identifier E c parts = parts\<lparr>sel_id := name\<rparr>"
      by (simp add: c(1) add_identifier_def)
    with 1 show ?thesis by (simp add: c(1) IH is_id_simps)
  next
    case 2
    then have "add_identifier E c parts = parts\<lparr>sel_classes := sel_classes parts @ [name]\<rparr>"
      by (simp add: c(1) add_identifier_def)
    with 2 show ?thesis by (simp add: c(1) IH is_id_simps)
  next
    case 3
    then have "add_identifier E c parts =
        (if GetSelector E name
         then parts\<lparr>sel_structural_pseudo_classes := sel_structural_pseudo_classes parts @ [name]\<rparr>
         else parts\<lparr>sel_pseudo_classes := sel_pseudo_classes parts @ [name]\<rparr>)"
      by (simp add: c(1) add_identifier_def)
    with 3 show ?thesis by (simp add: c(1) IH is_id_simps)
  qed
qed

text \<open>
  The node that a path of (name, type) steps reaches from a node, if every step has a
  child; and the node \<open>GetChildNode\<close> continues with: the existing child, or a new one.
\<close>

fun node_at :: "(string \<times> NodeType) list \<Rightarrow> StyleSheetNode \<Rightarrow> StyleSheetNode option" where
  "node_at [] n = Some n"
| "node_at (k # ks) n =
     (case map_of (children n) k of None \<Rightarrow> None | Some c \<Rightarrow> node_at ks c)"

definition node_or_new :: "StyleSheetNode option \<Rightarrow> StyleSheetNode" where
  "node_or_new m = (case m of None \<Rightarrow> StyleSheetNode [] [] | Some n \<Rightarrow> n)"

lemma map_of_modify_child:
  "map_of (modify_child k f ch) k = Some (f (node_or_new (map_of ch k)))"
  by (induction ch) (auto simp: node_or_new_def)

lemma node_at_new: "node_or_new (node_at ks (StyleSheetNode [] [])) = StyleSheetNode [] []"
  by (cases ks) (simp_all add: node_or_new_def)

lemma node_or_new_simps [simp]:
  "node_or_new None = StyleSheetNode [] []" "node_or_new (Some n) = n"
  by (simp_all add: node_or_new_def)

lemma node_at_update_leaf:
  "node_at path (update_leaf path f n) = Some (f (node_or_new (node_at path n)))"
proof (induction path arbitrary: n)
  case Nil
  then show ?case by simp
next
  case (Cons k ks)
  let ?c = "node_or_new (map_of (children n) k)"
  have "node_at (k # ks) (update_leaf (k # ks) f n) = node_at ks (update_leaf ks f ?c)"
    by (simp add: map_of_modify_child)
  also have "\<dots> = Some (f (node_or_new (node_at ks ?c)))" by (rule Cons.IH)
  also have "node_or_new (node_at ks ?c) = node_or_new (node_at (k # ks) n)"
    by (cases "map_of (children n) k") (simp_all add: node_at_new)
  finally show ?case .
qed

text \<open>
  The path of one compound selector as the specification describes it: the tag, then
  the id if there is one, then the classes in alphabetical order, then the structural
  pseudo-classes in alphabetical order, then the other pseudo-classes in alphabetical
  order. It is compared below with \<open>descent\<close>, which follows the code.
\<close>

definition spec_descent :: "collaborators \<Rightarrow> string \<Rightarrow> string list \<Rightarrow> (string \<times> NodeType) list" where
  "spec_descent E tag cs =
     [(tag, TAG)]
     @ (if filter is_id cs = [] \<or> tl (last (filter is_id cs)) = [] then []
        else [(tl (last (filter is_id cs)), ID)])
     @ map (\<lambda>name. (name, CLASS)) (sort (map tl (filter (\<lambda>c. hd c = CHR ''.'') cs)))
     @ map (\<lambda>name. (name, STRUCTURAL_PSEUDO_CLASS))
         (sort (map tl (filter (\<lambda>c. hd c = CHR '':'' \<and> GetSelector E (tl c)) cs)))
     @ map (\<lambda>name. (name, PSEUDO_CLASS))
         (sort (map tl (filter (\<lambda>c. hd c = CHR '':'' \<and> \<not> GetSelector E (tl c)) cs)))"

lemma descent_compound:
  assumes "no_delimiter tag" and "list_all component cs"
  shows "descent (read_identifiers E (tag @ concat cs) no_parts) = spec_descent E tag cs"
  unfolding read_identifiers_compound[OF assms] fold_add_identifier[OF assms(2)]
  by (simp add: descent_def spec_descent_def no_parts_def std_sort_strings_def)

lemma spec_descent_reordered:
  assumes "mset cs' = mset cs" and "filter is_id cs' = filter is_id cs"
  shows "spec_descent E tag cs' = spec_descent E tag cs"
proof -
  have s: "sort (map tl (filter P cs')) = sort (map tl (filter P cs))" for P
    by (rule properties_for_sort) (simp_all add: assms(1))
  show ?thesis by (simp add: spec_descent_def assms(2) s)
qed

text \<open>What \<open>Node_ImportProperties\<close> records for a property of the imported dictionary.\<close>

lemma map_of_SetProperty:
  "map_of (SetProperty name v specificity props) k =
     (if k = name then
        (case map_of props name of
           None \<Rightarrow> Some (v, specificity)
         | Some (v0, s0) \<Rightarrow> if s0 > specificity then Some (v0, s0) else Some (v, specificity))
      else map_of props k)"
  by (auto simp: SetProperty_def update_conv' split: option.splits)

lemma fold_SetProperty_other:
  "k \<notin> fst ` set props \<Longrightarrow>
     map_of (fold (\<lambda>(name, v) acc. SetProperty name v specificity acc) props acc) k = map_of acc k"
  by (induction props arbitrary: acc) (auto simp: map_of_SetProperty)

lemma fold_SetProperty_records:
  "distinct (map fst props) \<Longrightarrow> (k, v) \<in> set props \<Longrightarrow>
   (\<forall>v0 s0. map_of acc k = Some (v0, s0) \<longrightarrow> s0 \<le> specificity) \<Longrightarrow>
     map_of (fold (\<lambda>(name, v) acc. SetProperty name v specificity acc) props acc) k
       = Some (v, specificity)"
proof (induction props arbitrary: acc)
  case Nil
  then show ?case by simp
next
  case (Cons a props)
  obtain k' v' where a: "a = (k', v')" by (cases a)
  show ?case
  proof (cases "k' = k")
    case True
    with Cons.prems a have v: "v' = v" and fresh: "k \<notin> fst ` set props"
      by (auto simp: image_iff)
    have "map_of (SetProperty k v specificity acc) k = Some (v, specificity)"
      using Cons.prems(3) by (auto simp: map_of_SetProperty split: option.splits)
    with fold_SetProperty_other[OF fresh] a True v show ?thesis by simp
  next
    case False
    with Cons.prems a have "(k, v) \<in> set props" "distinct (map fst props)" by auto
    moreover from False Cons.prems(3)
    have "\<forall>v0 s0. map_of (SetProperty k' v' specificity acc) k = Some (v0, s0) \<longrightarrow> s0 \<le> specificity"
      by (simp add: map_of_SetProperty)
    ultimately show ?thesis using Cons.IH a by simp
  qed
qed

text \<open>
  C2. Let two selector texts expand to compound selectors that agree pairwise in the
  tag and in the components up to their order, the id components standing in the same
  order in both. Then the path that \<open>ImportProperties\<close> descends for the first text is,
  selector after selector, the tag, the id, the classes sorted alphabetically, the
  structural pseudo-classes sorted alphabetically and the other pseudo-classes sorted
  alphabetically; the second text gives the same path. \<open>ImportProperties\<close> returns true,
  and in the tree it returns, for either text, the node at the end of that path is the
  node that was there before (a new node if there was none) with the properties
  imported into it; the two trees are equal. A property of a dictionary without
  repeated names is recorded at that node with the rule's specificity, unless the node
  held it with a higher specificity.
\<close>

theorem class_order_same_leaf:
  assumes "ExpandString E names (CHR '' '') = map (\<lambda>(tag, cs, cs'). tag @ concat cs) sels"
    and "ExpandString E names' (CHR '' '') = map (\<lambda>(tag, cs, cs'). tag @ concat cs') sels"
    and "list_all (\<lambda>(tag, cs, cs'). no_delimiter tag \<and> list_all component cs
            \<and> mset cs' = mset cs \<and> filter is_id cs' = filter is_id cs) sels"
  shows "leaf_path E (ExpandString E names (CHR '' ''))
        = concat (map (\<lambda>(tag, cs, cs'). spec_descent E tag cs) sels)
    \<and> leaf_path E (ExpandString E names' (CHR '' '')) = leaf_path E (ExpandString E names (CHR '' ''))
    \<and> fst (ImportProperties E node names props rule_specificity) = True
    \<and> node_at (leaf_path E (ExpandString E names (CHR '' '')))
          (snd (ImportProperties E node names props rule_specificity))
        = Some (Node_ImportProperties props rule_specificity
                  (node_or_new (node_at (leaf_path E (ExpandString E names (CHR '' ''))) node)))
    \<and> node_at (leaf_path E (ExpandString E names (CHR '' '')))
          (snd (ImportProperties E node names' props rule_specificity))
        = Some (Node_ImportProperties props rule_specificity
                  (node_or_new (node_at (leaf_path E (ExpandString E names (CHR '' ''))) node)))
    \<and> ImportProperties E node names' props rule_specificity
        = ImportProperties E node names props rule_specificity
    \<and> (distinct (map fst props) \<and> (k, v) \<in> set props
         \<and> (\<forall>v0 s0. map_of (node_properties leaf) k = Some (v0, s0) \<longrightarrow> s0 \<le> rule_specificity) \<longrightarrow>
         map_of (node_properties (Node_ImportProperties props rule_specificity leaf)) k
           = Some (v, rule_specificity))"
proof -
  have each: "descent (read_identifiers E (tag @ concat cs) no_parts) = spec_descent E tag cs
      \<and> descent (read_identifiers E (tag @ concat cs') no_parts) = spec_descent E tag cs"
    if "(tag, cs, cs') \<in> set sels" for tag cs cs'
  proof -
    from assms(3) that have w: "no_delimiter tag" "list_all component cs"
      "mset cs' = mset cs" "filter is_id cs' = filter is_id cs"
      by (auto simp: list_all_iff)
    from w(2,3) have w': "list_all component cs'"
      by (metis list_all_iff set_mset_mset)
    from descent_compound[OF w(1,2)] descent_compound[OF w(1) w'] spec_descent_reordered[OF w(3,4)]
    show ?thesis by simp
  qed
  have m: "map (\<lambda>(tag, cs, cs'). descent (read_identifiers E (tag @ concat cs) no_parts)) sels
      = map (\<lambda>(tag, cs, cs'). spec_descent E tag cs) sels"
    by (rule map_cong[OF refl]) (use each in auto)
  have m': "map (\<lambda>(tag, cs, cs'). descent (read_identifiers E (tag @ concat cs') no_parts)) sels
      = map (\<lambda>(tag, cs, cs'). spec_descent E tag cs) sels"
    by (rule map_cong[OF refl]) (use each in auto)
  have unf: "map (\<lambda>n. descent (read_identifiers E n no_parts)) (map (\<lambda>(tag, cs, cs'). tag @ concat cs) sels)
      = map (\<lambda>(tag, cs, cs'). descent (read_identifiers E (tag @ concat cs) no_parts)) sels"
    and unf': "map (\<lambda>n. descent (read_identifiers E n no_parts)) (map (\<lambda>(tag, cs, cs'). tag @ concat cs') sels)
      = map (\<lambda>(tag, cs, cs'). descent (read_identifiers E (tag @ concat cs') no_parts)) sels"
    by (simp_all add: comp_def case_prod_unfold)
  have p: "leaf_path E (ExpandString E names (CHR '' ''))
        = concat (map (\<lambda>(tag, cs, cs'). spec_descent E tag cs) sels)"
    unfolding leaf_path_def assms(1) unf m ..
  have p': "leaf_path E (ExpandString E names' (CHR '' ''))
        = concat (map (\<lambda>(tag, cs, cs'). spec_descent E tag cs) sels)"
    unfolding leaf_path_def assms(2) unf' m' ..
  have leaf: "node_at (leaf_path E (ExpandString E n (CHR '' '')))
          (snd (ImportProperties E node n props rule_specificity))
        = Some (Node_ImportProperties props rule_specificity
                  (node_or_new (node_at (leaf_path E (ExpandString E n (CHR '' ''))) node)))" for n
    by (simp add: ImportProperties_def node_at_update_leaf)
  have same: "ImportProperties E node names' props rule_specificity
      = ImportProperties E node names props rule_specificity"
    by (simp add: ImportProperties_def p p')
  have rec: "distinct (map fst props) \<and> (k, v) \<in> set props
         \<and> (\<forall>v0 s0. map_of (node_properties leaf) k = Some (v0, s0) \<longrightarrow> s0 \<le> rule_specificity) \<longrightarrow>
         map_of (node_properties (Node_ImportProperties props rule_specificity leaf)) k
           = Some (v, rule_specificity)"
    using fold_SetProperty_records[of props k v "node_properties leaf" rule_specificity]
    by (simp add: Node_ImportProperties_def)
  from leaf[of names] leaf[of names'] have
    "node_at (leaf_path E (ExpandString E names (CHR '' '')))
          (snd (ImportProperties E node names' props rule_specificity))
        = Some (Node_ImportProperties props rule_specificity
                  (node_or_new (node_at (leaf_path E (ExpandString E names (CHR '' ''))) node)))"
    by (simp add: p p')
  with p p' leaf[of names] same rec show ?thesis
    by (simp add: ImportProperties_def)
qed

theorem class_order_same_leaf_witness:
  "leaf_path sample (ExpandString sample ''div:hover.b#x.a'' (CHR '' ''))
     = [(''div'', TAG), (''x'', ID), (''a'', CLASS), (''b'', CLASS), (''hover'', PSEUDO_CLASS)]
   \<and> node_at [(''div'', TAG), (''x'', ID), (''a'', CLASS), (''b'', CLASS), (''hover'', PSEUDO_CLASS)]
        (snd (ImportProperties sample (StyleSheetNode [] []) ''div:hover.b#x.a'' [(''top'', ''1px'')] 0))
     = Some (StyleSheetNode [(''top'', ''1px'', 0)] [])
   \<and> ImportProperties sample (StyleSheetNode [] []) ''div:hover.b#x.a'' [(''top'', ''1px'')] 0
     = ImportProperties sample (StyleSheetNode [] []) ''div#x.a.b:hover'' [(''top'', ''1px'')] 0
   \<and> map_of (node_properties (Node_ImportProperties [(''top'', ''1px'')] 0
        (StyleSheetNode [(''top'', ''0px'', 0)] []))) ''top'' = Some (''1px'', 0)"
proof -
  let ?sels = "[(''div'', [''#x'', ''.a'', ''.b'', '':hover''], ['':hover'', ''.b'', ''#x'', ''.a''])]"
  have a: "ExpandString sample ''div#x.a.b:hover'' (CHR '' '') = map (\<lambda>(tag, cs, cs'). tag @ concat cs) ?sels"
    by (simp add: sample_simps)
  have b: "ExpandString sample ''div:hover.b#x.a'' (CHR '' '') = map (\<lambda>(tag, cs, cs'). tag @ concat cs') ?sels"
    by (simp add: sample_simps)
  have c: "list_all (\<lambda>(tag, cs, cs'). no_delimiter tag \<and> list_all component cs
            \<and> mset cs' = mset cs \<and> filter is_id cs' = filter is_id cs) ?sels"
    by (simp add: no_delimiter_def component_def is_delimiter_def is_id_def)
  have d: "concat (map (\<lambda>(tag, cs, cs'). spec_descent sample tag cs) ?sels)
      = [(''div'', TAG), (''x'', ID), (''a'', CLASS), (''b'', CLASS), (''hover'', PSEUDO_CLASS)]"
    by (simp add: spec_descent_def is_id_def sample_def)
  have e: "Node_ImportProperties [(''top'', ''1px'')] 0 (StyleSheetNode [] [])
      = StyleSheetNode [(''top'', ''1px'', 0)] []"
    by (simp add: Node_ImportProperties_def SetProperty_def)
  have f: "node_at [(''div'', TAG), (''x'', ID), (''a'', CLASS), (''b'', CLASS), (''hover'', PSEUDO_CLASS)]
      (StyleSheetNode [] []) = None"
    by simp
  have g: "distinct (map fst [(''top'', ''1px'')]) \<and> (''top'', ''1px'') \<in> set [(''top'', ''1px'')]
      \<and> (\<forall>v0 s0. map_of (node_properties (StyleSheetNode [(''top'', ''0px'', 0)] [])) ''top'' = Some (v0, s0)
            \<longrightarrow> s0 \<le> (0::int))"
    by simp
  note t = class_order_same_leaf[OF a b c, where node = "StyleSheetNode [] []"
      and props = "[(''top'', ''1px'')]" and rule_specificity = 0 and k = "''top''" and v = "''1px''"
      and leaf = "StyleSheetNode [(''top'', ''0px'', 0)] []"]
  note t1 = t[THEN conjunct1, unfolded d]
  note t2 = t[THEN conjunct2, THEN conjunct1, unfolded t1]
  note t5 = t[THEN conjunct2, THEN conjunct2, THEN conjunct2, THEN conjunct2, THEN conjunct1,
      unfolded t1 f node_or_new_simps e]
  note t6 = t[THEN conjunct2, THEN conjunct2, THEN conjunct2, THEN conjunct2, THEN conjunct2,
      THEN conjunct1]
  note t7 = t[THEN conjunct2, THEN conjunct2, THEN conjunct2, THEN conjunct2, THEN conjunct2,
      THEN conjunct2, rule_format, OF g]
  show ?thesis
    by (rule conjI[OF t2 conjI[OF t5 conjI[OF t6 t7]]])
qed

section \<open>Where the reader departs from its description\<close>

text \<open>
  C1. The scanner leaves \<open>QUOTE\<close> at a double quote unless the previous character is
  a slash; the backslash plays no part. On the declaration body
  \<open>src: "fonts/"; top: 1px; }\<close> the quote that closes the value follows a slash, so the
  scanner stays in \<open>QUOTE\<close> to the end of the stream: nothing is handed to the
  declaration parser and one warning is logged for the unfinished declaration. On
  \<open>content: "a\";b"; }\<close> the quote after the backslash ends the quoted part, so the
  semicolon inside the quotes ends the declaration: the value handed on is cut there
  and the rest is taken for a name without a value.
\<close>

theorem quote_closing_after_slash:
  "ReadProperties sample []
     (parser_on (''src: '' @ [CHR 0x22] @ ''fonts/'' @ [CHR 0x22] @ ''; top: 1px; }'')) =
   (True, [],
    \<lparr>parse_buffer = ''src: '' @ [CHR 0x22] @ ''fonts/'' @ [CHR 0x22] @ ''; top: 1px; }'',
     parse_buffer_pos = 26, line_number = 0, stream = [],
     messages = [InvalidPropertyDeclaration ''src''
                   ('' '' @ [CHR 0x22] @ ''fonts/'' @ [CHR 0x22] @ ''; top: 1px; }'') 0]\<rparr>)
   \<and> ReadProperties sample []
     (parser_on (''content: '' @ [CHR 0x22] @ ''a'' @ [CHR 0x5C, CHR 0x22] @ '';b'' @ [CHR 0x22] @ ''; }'')) =
   (True, [(''content'', [CHR 0x22] @ ''a'' @ [CHR 0x5C, CHR 0x22])],
    \<lparr>parse_buffer = ''content: '' @ [CHR 0x22] @ ''a'' @ [CHR 0x5C, CHR 0x22] @ '';b'' @ [CHR 0x22] @ ''; }'',
     parse_buffer_pos = 19, line_number = 0, stream = [],
     messages = [NameWithNoValue (''b'' @ [CHR 0x22]) 0]\<rparr>)"
  by (simp add: reader_simps scanner_simps sample_simps)

text \<open>
  C8. Inside a comment, the character after a \<open>*\<close> is stepped over whatever it is. On
  \<open>/***/a\<close> the second and third star are taken as such a pair, the comment is never
  closed and no character is returned. On \<open>/**\<close>, a line feed, \<open>*/a\<close> the line feed
  follows a star: the character \<open>a\<close> is returned and the line counter is still zero.
\<close>

theorem comment_reader_misses:
  "fst (ReadCharacter (parser_on ''/***/a'')) = None
   \<and> fst (ReadCharacter (parser_on (''/**'' @ [CHR 0x0A] @ ''*/a''))) = Some (CHR ''a'')
   \<and> line_number (snd (ReadCharacter (parser_on (''/**'' @ [CHR 0x0A] @ ''*/a'')))) = 0"
  by (simp add: reader_simps)

end
